theory Spec2Isabelle
  imports Complex_Main "HOL-Library.Sublist"
begin

section \<open>Python values and errors\<close>

text \<open>
  The module \<^verbatim>\<open>table_extraction.py\<close> works on Python strings, integers, floats and
  datetimes. Strings are modelled as \<^typ>\<open>string\<close>, each \<^typ>\<open>char\<close> read as one code
  point in U+0000..U+00FF (Latin-1 contains every letter of the Italian report text,
  including \<open>U+00E0\<close>). Python integers are unbounded, so they are \<^typ>\<open>int\<close>.

  A float is \<open>nan\<close>, an infinity, or a finite binary64 value given by its exact
  rational value (the sign of zero is not kept).
\<close>

datatype pyfloat = NaN | Infty bool | Fin rat

record datetime =
  year :: int
  month :: int
  day :: int
  hour :: int
  minute :: int

datatype pyval = PStr string | PInt int | PFloat pyfloat | PDate datetime

datatype message =
    Msg string
  | Inconsistent_sum string pyval int
    \<comment> \<open>the f-string of \<^verbatim>\<open>sanity_check_with_totals\<close>: column, \<^verbatim>\<open>actual_sum\<close>, \<^verbatim>\<open>totals[col]\<close>\<close>

datatype error =
    ValueError
  | AttributeError
  | TypeError
  | IndexError
  | KeyError string
  | TableExtractionError message
  | NotModelled
    \<comment> \<open>not a Python exception: marks a pandas operation outside the modelled fragment\<close>

text \<open>Truth value of an object, as \<^verbatim>\<open>not s\<close> tests it.\<close>

fun truthy :: "pyval \<Rightarrow> bool" where
  "truthy (PStr s) = (s \<noteq> [])"
| "truthy (PInt n) = (n \<noteq> 0)"
| "truthy (PFloat NaN) = True"
| "truthy (PFloat (Infty _)) = True"
| "truthy (PFloat (Fin q)) = (q \<noteq> 0)"
| "truthy (PDate _) = True"

section \<open>String operations\<close>

text \<open>\<^verbatim>\<open>str.replace(old, new)\<close>: non-overlapping occurrences, left to right.\<close>

function replace :: "string \<Rightarrow> string \<Rightarrow> string \<Rightarrow> string" where
  "replace old new [] = (if old = [] then new else [])"
| "replace old new (c # s) =
     (if old = [] then new @ c # replace old new s
      else if take (length old) (c # s) = old
        then new @ replace old new (drop (length old) (c # s))
      else c # replace old new s)"
  by pat_completeness auto
termination
  by (relation "measure (\<lambda>(old, new, s). length s)") auto

text \<open>
  The whitespace that \<^verbatim>\<open>int\<close> and \<^verbatim>\<open>float\<close> strip from the ends of a string, within
  U+0000..U+00FF: tab, line feed, vertical tab, form feed, carriage return and space, and
  the two non-ASCII spaces U+0085 and U+00A0 (these are turned into a space first). The
  separators U+001C..U+001F, for which \<^verbatim>\<open>str.isspace\<close> holds as well, are not stripped.
\<close>

definition is_space :: "char \<Rightarrow> bool" where
  "is_space c = ((of_char c :: nat) \<in> {9, 10, 11, 12, 13, 32, 133, 160})"

definition strip :: "string \<Rightarrow> string" where
  "strip s = rev (dropWhile is_space (rev (dropWhile is_space s)))"

definition is_digit :: "char \<Rightarrow> bool" where
  "is_digit c = (c \<in> set ''0123456789'')"

definition digit_val :: "char \<Rightarrow> nat" where
  "digit_val c = of_char c - 48"

section \<open>The builtin \<^verbatim>\<open>int(str)\<close>\<close>

text \<open>
  Base 10: surrounding whitespace, an optional sign, then digits, where single
  underscores may stand between two digits. Anything else is a \<^verbatim>\<open>ValueError\<close>
  (\<open>None\<close> here), and so is a numeral of more digits than the interpreter's limit for
  the conversion of strings, 4300 by default; underscores and the sign do not count.
\<close>

definition max_str_digits :: nat where
  "max_str_digits = 4300"

fun int_body :: "nat \<Rightarrow> string \<Rightarrow> nat option" where
  "int_body acc [] = Some acc"
| "int_body acc (c # cs) =
     (if is_digit c then int_body (10 * acc + digit_val c) cs
      else if c = CHR ''_'' then
        (case cs of
           [] \<Rightarrow> None
         | d # ds \<Rightarrow> if is_digit d then int_body (10 * acc + digit_val d) ds else None)
      else None)"

definition int_literal :: "string \<Rightarrow> nat option" where
  "int_literal s =
     (case s of [] \<Rightarrow> None
      | c # cs \<Rightarrow>
          if is_digit c then
            (case int_body (digit_val c) cs of
               None \<Rightarrow> None
             | Some n \<Rightarrow> if max_str_digits < length (filter is_digit s) then None else Some n)
          else None)"

definition py_int :: "string \<Rightarrow> int option" where
  "py_int s =
     (case strip s of
        [] \<Rightarrow> None
      | c # cs \<Rightarrow>
          if c = CHR ''-'' then map_option (\<lambda>n. - int n) (int_literal cs)
          else if c = CHR ''+'' then map_option int (int_literal cs)
          else map_option int (int_literal (c # cs)))"

section \<open>Value converters\<close>

text \<open>
  \<^verbatim>\<open>
  def to_int(s):
      if not s:
          return math.nan
      return int(s.replace('.', '').replace(' ', ''))
  \<close>
  Only a string has a \<^verbatim>\<open>replace\<close> taking two strings: an integer or a float raises
  \<^verbatim>\<open>AttributeError\<close>, a datetime (whose \<^verbatim>\<open>replace\<close> takes integers) \<^verbatim>\<open>TypeError\<close>.
\<close>

definition to_int :: "pyval \<Rightarrow> error + pyval" where
  "to_int s =
     (if \<not> truthy s then Inr (PFloat NaN)
      else case s of
        PStr t \<Rightarrow>
          (case py_int (replace '' '' '''' (replace ''.'' '''' t)) of
             None \<Rightarrow> Inl ValueError
           | Some n \<Rightarrow> Inr (PInt n))
      | PDate _ \<Rightarrow> Inl TypeError
      | _ \<Rightarrow> Inl AttributeError)"

section \<open>The builtin \<^verbatim>\<open>float(str)\<close>\<close>

text \<open>
  Case folding of one code point within U+0000..U+00FF: the letters \<open>A-Z\<close> and
  \<open>U+00C0..U+00DE\<close> without the multiplication sign \<open>U+00D7\<close>.
\<close>

definition lower :: "char \<Rightarrow> char" where
  "lower c =
     (let n = (of_char c :: nat)
      in if (65 \<le> n \<and> n \<le> 90) \<or> (192 \<le> n \<and> n \<le> 222 \<and> n \<noteq> 215)
         then char_of (n + 32) else c)"

text \<open>The value of a string of decimal digits.\<close>

definition dec :: "string \<Rightarrow> nat" where
  "dec ds = foldl (\<lambda>a c. 10 * a + digit_val c) 0 ds"

text \<open>
  Underscores are dropped first; each must stand between two digits. The first argument
  is the previous character (\<open>NUL\<close> at the start).
\<close>

fun strip_underscores :: "char \<Rightarrow> string \<Rightarrow> string option" where
  "strip_underscores prev [] = (if prev = CHR ''_'' then None else Some [])"
| "strip_underscores prev (c # cs) =
     (if c = CHR ''_'' then (if is_digit prev then strip_underscores c cs else None)
      else if prev = CHR ''_'' \<and> \<not> is_digit c then None
      else map_option ((#) c) (strip_underscores c cs))"

text \<open>
  A decimal literal without sign: digits, an optional point and more digits (at least one
  digit in all), an optional exponent. The result \<open>(m, e)\<close> stands for \<open>m * 10 ^ e\<close>.
\<close>

definition float_literal :: "string \<Rightarrow> (nat \<times> int) option" where
  "float_literal s =
     (let ip = takeWhile is_digit s;
          r1 = dropWhile is_digit s;
          (fp, r2) = (case r1 of
                        [] \<Rightarrow> ([], [])
                      | c # r \<Rightarrow> if c = CHR ''.''
                                 then (takeWhile is_digit r, dropWhile is_digit r)
                                 else ([], r1));
          m = dec (ip @ fp)
      in if ip = [] \<and> fp = [] then None
         else case r2 of
           [] \<Rightarrow> Some (m, - int (length fp))
         | c # r3 \<Rightarrow>
             if c = CHR ''e'' \<or> c = CHR ''E'' then
               (let (eneg, r4) = (case r3 of
                                    [] \<Rightarrow> (False, [])
                                  | x # r \<Rightarrow> if x = CHR ''-'' then (True, r)
                                             else if x = CHR ''+'' then (False, r)
                                             else (False, r3))
                in if r4 \<noteq> [] \<and> list_all is_digit r4
                   then Some (m, (if eneg then - int (dec r4) else int (dec r4))
                                   - int (length fp))
                   else None)
             else None)"

text \<open>
  Rounding of the positive rational \<open>n / d\<close> to the nearest binary64 value, ties to even;
  a result of \<open>2 ^ 1024\<close> or more is an infinity.
\<close>

fun bitlen :: "nat \<Rightarrow> nat" where
  "bitlen n = (if n = 0 then 0 else Suc (bitlen (n div 2)))"

declare bitlen.simps [simp del]

definition round_half_even :: "nat \<Rightarrow> nat \<Rightarrow> nat" where
  "round_half_even p q =
     (let f = p div q; r2 = 2 * (p mod q)
      in if r2 < q then f else if q < r2 then f + 1 else if even f then f else f + 1)"

definition round_double :: "bool \<Rightarrow> nat \<Rightarrow> nat \<Rightarrow> pyfloat" where
  "round_double neg n d =
     (if n = 0 then Fin 0
      else
        let e0 = int (bitlen n) - int (bitlen d);
            e = (if d * 2 ^ nat e0 \<le> n * 2 ^ nat (- e0) then e0 else e0 - 1);
            k = max (e - 52) (- 1074);
            m = round_half_even (n * 2 ^ nat (- k)) (d * 2 ^ nat k)
        in if 0 \<le> k \<and> 2 ^ 1024 \<le> m * 2 ^ nat k then Infty neg
           else Fin ((if neg then - 1 else 1) * (of_nat (m * 2 ^ nat k) / of_nat (2 ^ nat (- k)))))"

definition py_float :: "string \<Rightarrow> pyfloat option" where
  "py_float s =
     (case strip_underscores (CHR 0x00) s of
        None \<Rightarrow> None
      | Some t \<Rightarrow>
          (let u = strip t;
               (neg, body) = (case u of
                                [] \<Rightarrow> (False, [])
                              | c # r \<Rightarrow> if c = CHR ''-'' then (True, r)
                                         else if c = CHR ''+'' then (False, r)
                                         else (False, u))
           in case float_literal body of
                Some (m, e) \<Rightarrow>
                  Some (if 0 \<le> e then round_double neg (m * 10 ^ nat e) 1
                        else round_double neg m (10 ^ nat (- e)))
              | None \<Rightarrow>
                  (let l = map lower body
                   in if l = ''inf'' \<or> l = ''infinity'' then Some (Infty neg)
                      else if l = ''nan'' then Some NaN
                      else None)))"

text \<open>
  \<^verbatim>\<open>
  def to_float(s):
      if not s:
          return math.nan
      return float(s.replace(',', '.'))
  \<close>
\<close>

definition to_float :: "pyval \<Rightarrow> error + pyval" where
  "to_float s =
     (if \<not> truthy s then Inr (PFloat NaN)
      else case s of
        PStr t \<Rightarrow>
          (case py_float (replace '','' ''.'' t) of
             None \<Rightarrow> Inl ValueError
           | Some x \<Rightarrow> Inr (PFloat x))
      | PDate _ \<Rightarrow> Inl TypeError
      | _ \<Rightarrow> Inl AttributeError)"

text \<open>
  Characters that can occur in a base-10 integer numeral accepted by \<^verbatim>\<open>int\<close>: digits,
  a sign, the underscore and surrounding whitespace.
\<close>

definition numeral_char :: "char \<Rightarrow> bool" where
  "numeral_char c =
     (is_digit c \<or> c = CHR ''+'' \<or> c = CHR ''-'' \<or> c = CHR ''_'' \<or> is_space c)"

section \<open>Regular expressions\<close>

text \<open>
  The patterns of the module are compiled by \<^verbatim>\<open>re\<close> with \<^verbatim>\<open>re.IGNORECASE\<close>. They use
  literal characters, character classes, the dot, sequencing, alternation, \<open>?\<close>, \<open>*\<close>,
  \<open>+\<close> and (named) groups. A literal or a class member matches a character with the same
  case folding; the dot matches every character but the newline.
\<close>

datatype re =
    Eps
  | Lit char
  | Cls "char list"
  | Dot
  | Seq re re
  | Alt re re
  | Opt re
  | Star re
  | Plus re
  | Group string re

text \<open>
  A matcher state is the text still to be read and the groups captured so far. Matching
  a pattern at the start of a text yields every way to match, in the order in which the
  backtracking matcher of \<^verbatim>\<open>re\<close> tries them (alternatives left to right, repetition
  greedy); the head is the match \<^verbatim>\<open>re\<close> reports. An iteration of \<open>*\<close> or \<open>+\<close> has to
  read at least one character, so the length of the text bounds their number.
\<close>

type_synonym groups = "(string \<times> string) list"
type_synonym mstate = "string \<times> groups"

primrec iter :: "nat \<Rightarrow> (mstate \<Rightarrow> mstate list) \<Rightarrow> mstate \<Rightarrow> mstate list" where
  "iter 0 f st = [st]"
| "iter (Suc n) f st =
     concat (map (\<lambda>st'. if length (fst st') < length (fst st) then iter n f st' else [])
               (f st)) @ [st]"

definition same_letter :: "char \<Rightarrow> char \<Rightarrow> bool" where
  "same_letter c x = (lower x = lower c)"

definition in_class :: "char list \<Rightarrow> char \<Rightarrow> bool" where
  "in_class cs x = list_ex (\<lambda>c. same_letter c x) cs"

definition read_char :: "(char \<Rightarrow> bool) \<Rightarrow> mstate \<Rightarrow> mstate list" where
  "read_char p st =
     (case fst st of
        [] \<Rightarrow> []
      | x # r \<Rightarrow> if p x then [(r, snd st)] else [])"

primrec rmatch :: "re \<Rightarrow> mstate \<Rightarrow> mstate list" where
  "rmatch Eps st = [st]"
| "rmatch (Lit c) st = read_char (same_letter c) st"
| "rmatch (Cls cs) st = read_char (in_class cs) st"
| "rmatch Dot st = read_char (\<lambda>x. x \<noteq> CHR 0x0A) st"
| "rmatch (Seq a b) st = concat (map (rmatch b) (rmatch a st))"
| "rmatch (Alt a b) st = rmatch a st @ rmatch b st"
| "rmatch (Opt a) st = rmatch a st @ [st]"
| "rmatch (Star a) st = iter (length (fst st)) (rmatch a) st"
| "rmatch (Plus a) st =
     concat (map (\<lambda>st'. iter (length (fst st')) (rmatch a) st') (rmatch a st))"
| "rmatch (Group name a) st =
     map (\<lambda>st'. (fst st',
                  snd st' @ [(name, take (length (fst st) - length (fst st')) (fst st))]))
       (rmatch a st)"

text \<open>A string as a pattern: its characters in sequence.\<close>

definition lit :: "string \<Rightarrow> re" where
  "lit s = foldr (\<lambda>c r. Seq (Lit c) r) s Eps"

text \<open>
  \<^verbatim>\<open>pattern.search(text)\<close>: the first position where the pattern matches, with the text
  matched there and its groups (\<^verbatim>\<open>match.groupdict()\<close>); \<open>None\<close> when there is none.
\<close>

fun search :: "re \<Rightarrow> string \<Rightarrow> (string \<times> groups) option" where
  "search r s =
     (case rmatch r (s, []) of
        st # _ \<Rightarrow> Some (take (length s - length (fst st)) s, snd st)
      | [] \<Rightarrow> (case s of [] \<Rightarrow> None | _ # s' \<Rightarrow> search r s'))"

text \<open>
  \<^verbatim>\<open>pattern.sub(repl, text)\<close> for a replacement without group references: the
  non-overlapping matches, leftmost first, are replaced. Only matches that read at least
  one character are replaced (the one pattern used with \<^verbatim>\<open>sub\<close> here cannot match the
  empty string).
\<close>

function re_sub :: "re \<Rightarrow> string \<Rightarrow> string \<Rightarrow> string" where
  "re_sub r repl [] = []"
| "re_sub r repl (c # s) =
     (case rmatch r (c # s, []) of
        [] \<Rightarrow> c # re_sub r repl s
      | st # _ \<Rightarrow>
          if length (fst st) < length (c # s) then repl @ re_sub r repl (fst st)
          else c # re_sub r repl s)"
  by pat_completeness auto
termination
  by (relation "measure (\<lambda>(r, repl, s). length s)") auto

section \<open>The pattern library\<close>

text \<open>
  \<^verbatim>\<open>
  TABLE_CAPTION_PATTERN = re.compile(
      'tabella [0-9- ]+ distribuzione dei casi .+ per fascia di et. ',
      re.IGNORECASE
  )
  \<close>
\<close>

definition TABLE_CAPTION_PATTERN :: re where
  "TABLE_CAPTION_PATTERN =
     Seq (lit ''tabella '')
       (Seq (Plus (Cls ''0123456789- ''))
          (Seq (lit '' distribuzione dei casi '')
             (Seq (Plus Dot)
                (Seq (lit '' per fascia di et'') (Seq Dot (Lit CHR '' ''))))))"

text \<open>
  \<^verbatim>\<open>unknown_age_matcher = re.compile('(et\<close>\<open>U+00E0\<close>\<^verbatim>\<open> non nota|non not[ao])', flags=re.IGNORECASE)\<close>
\<close>

definition unknown_age_matcher :: re where
  "unknown_age_matcher =
     Alt (lit (''et'' @ [CHR 0xE0] @ '' non nota''))
         (Seq (lit ''non not'') (Cls ''ao''))"

text \<open>
  The hour and the minute of \<^verbatim>\<open>DATETIME_PATTERN\<close>; \<^verbatim>\<open>reagex\<close> puts each into a group of
  its name.
  \<^verbatim>\<open>
      hour='[o0-2]?[o0-9]|3[o0-1]',  # yes, in some reports they wrote 'o' instead of zero
      minute='[o0-5][o0-9]'),
  \<close>
\<close>

definition hour_pattern :: re where
  "hour_pattern = Alt (Seq (Opt (Cls ''o012'')) (Cls ''o0123456789'')) (Seq (Lit CHR ''3'') (Cls ''o01''))"

definition minute_pattern :: re where
  "minute_pattern = Seq (Cls ''o012345'') (Cls ''o0123456789'')"

text \<open>The part \<^verbatim>\<open>'[- ]* ore {hour}:{minute}'\<close>.\<close>

definition time_pattern :: re where
  "time_pattern =
     Seq (Star (Cls ''- ''))
       (Seq (lit '' ore '')
          (Seq (Group ''hour'' hour_pattern)
             (Seq (Lit CHR '':'') (Group ''minute'' minute_pattern))))"

section \<open>More string and list operations\<close>

text \<open>
  \<^verbatim>\<open>s.split(' ')\<close>: the pieces between the separators. The result is never empty, so the
  first branch of the \<open>case\<close> below is never taken.
\<close>

fun split :: "char \<Rightarrow> string \<Rightarrow> string list" where
  "split sep [] = [[]]"
| "split sep (c # s) =
     (if c = sep then [] # split sep s
      else (case split sep s of
              [] \<Rightarrow> [[c]]
            | t # ts \<Rightarrow> (c # t) # ts))"

text \<open>\<^verbatim>\<open>s.find(sub)\<close>: the lowest index where \<open>sub\<close> starts, or \<open>-1\<close>.\<close>

fun find_from :: "nat \<Rightarrow> string \<Rightarrow> string \<Rightarrow> int" where
  "find_from i sub [] = (if sub = [] then int i else - 1)"
| "find_from i sub (c # s) =
     (if take (length sub) (c # s) = sub then int i else find_from (Suc i) sub s)"

definition find :: "string \<Rightarrow> string \<Rightarrow> int" where
  "find s sub = find_from 0 sub s"

text \<open>\<^verbatim>\<open>xs[k:]\<close> for any integer \<open>k\<close>: a negative \<open>k\<close> counts from the end.\<close>

definition slice_from :: "int \<Rightarrow> 'a list \<Rightarrow> 'a list" where
  "slice_from k xs =
     (let n = int (length xs);
          j = (if k < 0 then max (k + n) 0 else k)
      in drop (nat j) xs)"

text \<open>\<^verbatim>\<open>xs[a:b]\<close> for \<open>0 \<le> a \<le> b\<close>: both bounds are clipped to the length.\<close>

definition slice :: "nat \<Rightarrow> nat \<Rightarrow> 'a list \<Rightarrow> 'a list" where
  "slice a b xs = drop a (take b xs)"

section \<open>Columns and converters\<close>

text \<open>
  Modelled from the spec: \<^verbatim>\<open>cartesian_join\<close> of the module \<^verbatim>\<open>common\<close> is not part of the
  sources at hand. The spec has one numeric field per pair of a prefix and a field name,
  and the converter list below repeats the five field kinds once per prefix, so the
  prefix varies slowest.
\<close>

definition cartesian_join :: "string list \<Rightarrow> string list \<Rightarrow> string list" where
  "cartesian_join ps fs = concat (map (\<lambda>p. map (\<lambda>f. p @ f) fs) ps)"

definition COLUMN_PREFIXES :: "string list" where
  "COLUMN_PREFIXES = [''male_'', ''female_'', '''']"

definition COLUMN_FIELDS :: "string list" where
  "COLUMN_FIELDS =
     [''cases'', ''cases_percentage'', ''deaths'', ''deaths_percentage'', ''fatality_rate'']"

definition COLUMNS :: "string list" where
  "COLUMNS = ''age_group'' # cartesian_join COLUMN_PREFIXES COLUMN_FIELDS"

text \<open>\<^verbatim>\<open>str\<close> as a converter: tokens are strings, and \<^verbatim>\<open>str\<close> of a string is that string.\<close>

fun py_str :: "pyval \<Rightarrow> error + pyval" where
  "py_str (PStr s) = Inr (PStr s)"
| "py_str _ = Inl NotModelled"

definition COLUMN_CONVERTERS :: "(pyval \<Rightarrow> error + pyval) list" where
  "COLUMN_CONVERTERS =
     [py_str] @ concat (replicate 3 [to_int, to_float, to_int, to_float, to_float])"

text \<open>
  \<^verbatim>\<open>
  def convert_values(values, converters):
      if len(values) != len(converters):
          raise ValueError
      return [converter(value) for value, converter in zip(values, converters)]
  \<close>
  The comprehension stops at the first converter that raises.
\<close>

fun convert_each :: "(pyval \<times> (pyval \<Rightarrow> error + pyval)) list \<Rightarrow> error + pyval list" where
  "convert_each [] = Inr []"
| "convert_each ((v, conv) # rest) =
     (case conv v of
        Inl e \<Rightarrow> Inl e
      | Inr x \<Rightarrow> (case convert_each rest of Inl e \<Rightarrow> Inl e | Inr xs \<Rightarrow> Inr (x # xs)))"

definition convert_values ::
  "pyval list \<Rightarrow> (pyval \<Rightarrow> error + pyval) list \<Rightarrow> error + pyval list" where
  "convert_values values converters =
     (if length values \<noteq> length converters then Inl ValueError
      else convert_each (zip values converters))"

section \<open>Tables\<close>

text \<open>
  A \<^verbatim>\<open>pandas.DataFrame\<close> is modelled by its column names and its rows in order, each row
  with its index label. A cell a row is too short for reads as missing. The cells are the
  Python objects the rows were built from; the one type in which pandas stores a whole
  column is applied where a column is read (\<open>as_series\<close> below).
\<close>

record table =
  columns :: "string list"
  body :: "(nat \<times> pyval list) list"

text \<open>
  \<^verbatim>\<open>pd.DataFrame(rows, columns=...)\<close>: the rows get the labels \<open>0, 1, ...\<close>. It is used
  here with rows of as many cells as there are columns.
\<close>

definition DataFrame :: "pyval list list \<Rightarrow> string list \<Rightarrow> table" where
  "DataFrame rows cols = \<lparr>columns = cols, body = zip [0..<length rows] rows\<rparr>"

fun index_of :: "'a \<Rightarrow> 'a list \<Rightarrow> nat" where
  "index_of x [] = 0"
| "index_of x (y # ys) = (if x = y then 0 else Suc (index_of x ys))"

definition cell :: "pyval list \<Rightarrow> nat \<Rightarrow> pyval" where
  "cell r j = (if j < length r then r ! j else PFloat NaN)"

text \<open>
  \<^verbatim>\<open>table.at[l, col] = v\<close>. A column or a label the table does not have is added first,
  with missing cells (setting with enlargement); then the cell is written.
\<close>

definition add_column :: "string \<Rightarrow> table \<Rightarrow> table" where
  "add_column col t =
     t\<lparr>columns := columns t @ [col],
       body := map (\<lambda>(l, r). (l, take (length (columns t)) r
                                  @ replicate (length (columns t) - length r) (PFloat NaN)
                                  @ [PFloat NaN])) (body t)\<rparr>"

definition add_row :: "nat \<Rightarrow> table \<Rightarrow> table" where
  "add_row l t = t\<lparr>body := body t @ [(l, replicate (length (columns t)) (PFloat NaN))]\<rparr>"

definition set_at :: "nat \<Rightarrow> string \<Rightarrow> pyval \<Rightarrow> table \<Rightarrow> table" where
  "set_at l col v t =
     (let t1 = (if col \<in> set (columns t) then t else add_column col t);
          t2 = (if l \<in> set (map fst (body t1)) then t1 else add_row l t1);
          j = index_of col (columns t2)
      in t2\<lparr>body := map (\<lambda>(l', r). if l' = l then (l', r[j := v]) else (l', r)) (body t2)\<rparr>)"

text \<open>
  \<^verbatim>\<open>
  def normalize_table(table: pd.DataFrame) -> pd.DataFrame:
      # Replace '\<close>\<open>U+2265\<close>\<^verbatim>\<open>90' with ascii equivalent '>=90'
      table.at[9, 'age_group'] = '>=90'
      # Replace 'Et\<close>\<open>U+00E0\<close>\<^verbatim>\<open> non nota' with english translation
      table.at[10, 'age_group'] = 'unknown'
      return table
  \<close>
  The table is changed in place and returned; the model returns the changed table.
\<close>

definition normalize_table :: "table \<Rightarrow> table" where
  "normalize_table t =
     set_at 10 ''age_group'' (PStr ''unknown'') (set_at 9 ''age_group'' (PStr ''>=90'') t)"

text \<open>
  The table keeps the cells as Python objects, as the rows gave them. pandas stores each
  column in one type, which shows when a column is read: a column of integers that fit
  64 bits is an \<^verbatim>\<open>int64\<close> column; a column of such integers and floats (a missing marker
  is a float) is a \<^verbatim>\<open>float64\<close> column, each integer converted to the nearest float;
  any other column is outside the modelled fragment.
\<close>

datatype series = IntSeries "int list" | FloatSeries "pyfloat list" | OtherSeries

definition int64 :: "int \<Rightarrow> bool" where
  "int64 n = (- (2 ^ 63) \<le> n \<and> n < 2 ^ 63)"

definition float_of_int :: "int \<Rightarrow> pyfloat" where
  "float_of_int n = round_double (n < 0) (nat \<bar>n\<bar>) 1"

fun int_cell :: "pyval \<Rightarrow> bool" where
  "int_cell (PInt n) = int64 n"
| "int_cell _ = False"

fun numeric_cell :: "pyval \<Rightarrow> bool" where
  "numeric_cell (PInt n) = int64 n"
| "numeric_cell (PFloat x) = True"
| "numeric_cell _ = False"

fun cell_int :: "pyval \<Rightarrow> int" where
  "cell_int (PInt n) = n"
| "cell_int _ = 0"

fun cell_float :: "pyval \<Rightarrow> pyfloat" where
  "cell_float (PInt n) = float_of_int n"
| "cell_float (PFloat x) = x"
| "cell_float _ = NaN"

definition as_series :: "pyval list \<Rightarrow> series" where
  "as_series cells =
     (if list_all int_cell cells then IntSeries (map cell_int cells)
      else if list_all numeric_cell cells then FloatSeries (map cell_float cells)
      else OtherSeries)"

text \<open>\<^verbatim>\<open>table[col]\<close>: the column as pandas stores it, top to bottom.\<close>

definition get_column :: "string \<Rightarrow> table \<Rightarrow> error + series" where
  "get_column col t =
     (if col \<in> set (columns t)
      then Inr (as_series (map (\<lambda>(l, r). cell r (index_of col (columns t))) (body t)))
      else Inl (KeyError col))"

text \<open>
  \<^verbatim>\<open>Series.sum()\<close>. On an \<^verbatim>\<open>int64\<close> column the sum is taken in 64-bit integers and wraps
  around. On a \<^verbatim>\<open>float64\<close> column the missing markers are skipped (\<^verbatim>\<open>skipna\<close> is on by
  default; the sum of no value is 0) and the rest is added in floating point. The order
  in which pandas adds is not fixed here, so the float sum is modelled where it is the
  same in every order: where all values are whole numbers whose absolute values add up to
  at most \<open>2 ^ 53\<close>, so that every partial sum is exact. Elsewhere, and with an infinity
  in the column, the sum is outside the modelled fragment.
\<close>

definition wrap64 :: "int \<Rightarrow> int" where
  "wrap64 n = (n + 2 ^ 63) mod 2 ^ 64 - 2 ^ 63"

fun finite_values :: "pyfloat list \<Rightarrow> rat list option" where
  "finite_values [] = Some []"
| "finite_values (NaN # xs) = finite_values xs"
| "finite_values (Fin q # xs) = map_option ((#) q) (finite_values xs)"
| "finite_values (Infty _ # xs) = None"

definition exact_sum :: "rat list \<Rightarrow> bool" where
  "exact_sum qs =
     (list_all (\<lambda>q. of_int \<lfloor>q\<rfloor> = q) qs \<and> sum_list (map abs qs) \<le> 2 ^ 53)"

fun series_sum :: "series \<Rightarrow> error + pyval" where
  "series_sum (IntSeries ns) = Inr (PInt (wrap64 (sum_list ns)))"
| "series_sum (FloatSeries xs) =
     (case finite_values xs of
        None \<Rightarrow> Inl NotModelled
      | Some qs \<Rightarrow> if exact_sum qs then Inr (PFloat (Fin (sum_list qs))) else Inl NotModelled)"
| "series_sum OtherSeries = Inl NotModelled"

text \<open>
  \<^verbatim>\<open>actual_sum != totals[col]\<close> for an expected total that is a Python integer fitting 64
  bits: an \<^verbatim>\<open>int64\<close> sum is compared by value, and against a \<^verbatim>\<open>float64\<close> sum the total is
  converted to the nearest float first.
\<close>

fun differs :: "pyval \<Rightarrow> int \<Rightarrow> error + bool" where
  "differs (PInt a) e = (if int64 e then Inr (a \<noteq> e) else Inl NotModelled)"
| "differs (PFloat NaN) e = (if int64 e then Inr True else Inl NotModelled)"
| "differs (PFloat x) e = (if int64 e then Inr (x \<noteq> float_of_int e) else Inl NotModelled)"
| "differs _ e = Inl NotModelled"

text \<open>
  \<^verbatim>\<open>
  def sanity_check_with_totals(table: pd.DataFrame, totals):
      columns = cartesian_join(COLUMN_PREFIXES, ['cases', 'deaths'])
      for col in columns:
          actual_sum = table[col].sum()
          if actual_sum != totals[col]:
              raise TableExtractionError(
                  f'column "{col}" sum() is inconsistent with the value reported '
                  f'in the last row of the table: {actual_sum} != {totals[col]}')
  \<close>
  The function returns nothing. It is given the table by reference, so its model returns,
  next to the error raised if any, the table as it is after the call; no statement of
  the function writes to it.
\<close>

fun check_columns :: "table \<Rightarrow> (string \<rightharpoonup> int) \<Rightarrow> string list \<Rightarrow> error + unit" where
  "check_columns t totals [] = Inr ()"
| "check_columns t totals (col # cols) =
     (case get_column col t of
        Inl e \<Rightarrow> Inl e
      | Inr column \<Rightarrow>
          (case series_sum column of
             Inl e \<Rightarrow> Inl e
           | Inr actual_sum \<Rightarrow>
               (case totals col of
                  None \<Rightarrow> Inl (KeyError col)
                | Some expected \<Rightarrow>
                    (case differs actual_sum expected of
                       Inl e \<Rightarrow> Inl e
                     | Inr True \<Rightarrow>
                         Inl (TableExtractionError (Inconsistent_sum col actual_sum expected))
                     | Inr False \<Rightarrow> check_columns t totals cols))))"

definition sanity_check_with_totals ::
  "table \<Rightarrow> (string \<rightharpoonup> int) \<Rightarrow> (error + unit) \<times> table" where
  "sanity_check_with_totals t totals =
     (check_columns t totals (cartesian_join COLUMN_PREFIXES [''cases'', ''deaths'']), t)"

section \<open>Pages\<close>

text \<open>
  A PDF is modelled by the texts of its pages, as \<^verbatim>\<open>getPage(i).extractText()\<close> returns
  them; \<^verbatim>\<open>getNumPages()\<close> is the length of the list.
  \<^verbatim>\<open>
  def extract_text(pdf: PdfFileReader, page: int) -> str:
      return pdf.getPage(page).extractText().replace('\n', '')
  \<close>
\<close>

type_synonym pdf = "string list"

definition extract_text :: "pdf \<Rightarrow> nat \<Rightarrow> error + string" where
  "extract_text pdf page =
     (if page < length pdf then Inr (replace [CHR 0x0A] [] (pdf ! page)) else Inl IndexError)"

text \<open>
  \<^verbatim>\<open>
  def find_table_page(pdf: PdfFileReader) -> Tuple[str, int]:
      num_pages = pdf.getNumPages()
      for i in range(1, num_pages):  # skip the first page, the table is certainly not there
          text = extract_text(pdf, page=i)
          if TABLE_CAPTION_PATTERN.search(text):
              return text, i
      else:
          raise TableExtractionError('could not find the table in the pdf')
  \<close>
\<close>

fun find_loop :: "pdf \<Rightarrow> nat list \<Rightarrow> error + (string \<times> nat)" where
  "find_loop pdf [] = Inl (TableExtractionError (Msg ''could not find the table in the pdf''))"
| "find_loop pdf (i # rest) =
     (case extract_text pdf i of
        Inl e \<Rightarrow> Inl e
      | Inr text \<Rightarrow>
          if search TABLE_CAPTION_PATTERN text \<noteq> None then Inr (text, i)
          else find_loop pdf rest)"

definition find_table_page :: "pdf \<Rightarrow> error + (string \<times> nat)" where
  "find_table_page pdf = find_loop pdf [1..<length pdf]"

section \<open>The report date and time\<close>

text \<open>
  Modelled from the spec: \<^verbatim>\<open>get_italian_date_pattern\<close> of the module \<^verbatim>\<open>common\<close> is not
  part of the sources at hand. The spec describes a calendar-date pattern of a day, a month
  given by its Italian name or by its number, and a year, with a separator pattern between
  them; the groups are named after the fields \<^verbatim>\<open>datetime\<close> takes.
\<close>

definition ITALIAN_MONTHS :: "string list" where
  "ITALIAN_MONTHS =
     [''gennaio'', ''febbraio'', ''marzo'', ''aprile'', ''maggio'', ''giugno'',
      ''luglio'', ''agosto'', ''settembre'', ''ottobre'', ''novembre'', ''dicembre'']"

definition digit_cls :: re where
  "digit_cls = Cls ''0123456789''"

definition get_italian_date_pattern :: "re \<Rightarrow> re" where
  "get_italian_date_pattern sep =
     Seq (Group ''day'' (Seq (Opt digit_cls) digit_cls))
       (Seq sep
          (Seq (Group ''month''
                  (foldr (\<lambda>m r. Alt (lit m) r) ITALIAN_MONTHS (Seq (Opt digit_cls) digit_cls)))
             (Seq sep
                (Group ''year'' (Seq digit_cls (Seq digit_cls (Seq digit_cls digit_cls)))))))"

text \<open>
  \<^verbatim>\<open>
  DATETIME_PATTERN = re.compile(
      get_italian_date_pattern(sep='[ ]?') + reagex(
          '[- ]* ore {hour}:{minute}',
          hour='[o0-2]?[o0-9]|3[o0-1]',
          minute='[o0-5][o0-9]'),
      re.IGNORECASE
  )
  \<close>
\<close>

definition DATETIME_PATTERN :: re where
  "DATETIME_PATTERN = Seq (get_italian_date_pattern (Opt (Cls '' ''))) time_pattern"

text \<open>
  Modelled from the spec: \<^verbatim>\<open>process_datetime_tokens\<close> of the module \<^verbatim>\<open>common\<close> is not part
  of the sources at hand. The spec has it translate every \<open>o\<close> written for a zero to \<open>0\<close>
  before the numeric parsing, and resolve an Italian month name to its number. The
  pattern ignores case, so the captured text is put in lower case first.
\<close>

definition o_to_zero :: "string \<Rightarrow> string" where
  "o_to_zero s = map (\<lambda>c. if c = CHR ''o'' then CHR ''0'' else c) s"

definition process_token :: "string \<times> string \<Rightarrow> error + (string \<times> int)" where
  "process_token kv =
     (let k = fst kv; v = map lower (snd kv)
      in if k = ''month'' \<and> v \<in> set ITALIAN_MONTHS
         then Inr (k, int (index_of v ITALIAN_MONTHS) + 1)
         else (case py_int (o_to_zero v) of
                 None \<Rightarrow> Inl ValueError
               | Some n \<Rightarrow> Inr (k, n)))"

fun process_datetime_tokens :: "groups \<Rightarrow> error + (string \<times> int) list" where
  "process_datetime_tokens [] = Inr []"
| "process_datetime_tokens (kv # rest) =
     (case process_token kv of
        Inl e \<Rightarrow> Inl e
      | Inr x \<Rightarrow>
          (case process_datetime_tokens rest of
             Inl e \<Rightarrow> Inl e
           | Inr xs \<Rightarrow> Inr (x # xs)))"

text \<open>
  \<^verbatim>\<open>datetime(**datetime_dict)\<close>: year, month and day are required, hour and minute default
  to 0, a keyword that is no parameter of \<^verbatim>\<open>datetime\<close> is a \<^verbatim>\<open>TypeError\<close>, and a field
  out of range is a \<^verbatim>\<open>ValueError\<close>. The record has no seconds, microseconds or time zone:
  these keywords, which no group of the pattern produces, are outside the modelled fragment.
\<close>

definition days_in_month :: "int \<Rightarrow> int \<Rightarrow> int" where
  "days_in_month y m =
     (if m = 2 then (if y mod 4 = 0 \<and> (y mod 100 \<noteq> 0 \<or> y mod 400 = 0) then 29 else 28)
      else if m \<in> {4, 6, 9, 11} then 30 else 31)"

definition make_datetime :: "(string \<times> int) list \<Rightarrow> error + datetime" where
  "make_datetime d =
     (if \<not> set (map fst d) \<subseteq> {''year'', ''month'', ''day'', ''hour'', ''minute'',
                                  ''second'', ''microsecond'', ''tzinfo'', ''fold''} then Inl TypeError
      else if \<not> set (map fst d) \<subseteq> {''year'', ''month'', ''day'', ''hour'', ''minute''}
        then Inl NotModelled
      else case (map_of d ''year'', map_of d ''month'', map_of d ''day'') of
        (Some y, Some m, Some dd) \<Rightarrow>
          (let h = (case map_of d ''hour'' of None \<Rightarrow> 0 | Some x \<Rightarrow> x);
               mi = (case map_of d ''minute'' of None \<Rightarrow> 0 | Some x \<Rightarrow> x)
           in if 1 \<le> y \<and> y \<le> 9999 \<and> 1 \<le> m \<and> m \<le> 12 \<and> 1 \<le> dd \<and> dd \<le> days_in_month y m
                 \<and> 0 \<le> h \<and> h \<le> 23 \<and> 0 \<le> mi \<and> mi \<le> 59
              then Inr \<lparr>year = y, month = m, day = dd, hour = h, minute = mi\<rparr>
              else Inl ValueError)
      | _ \<Rightarrow> Inl TypeError)"

text \<open>
  \<^verbatim>\<open>
  def extract_datetime(text: str) -> datetime:
      match = DATETIME_PATTERN.search(text)
      if match is None:
          raise TableExtractionError('extraction of report datetime failed')
      datetime_dict = process_datetime_tokens(match.groupdict())
      return datetime(**datetime_dict)
  \<close>
\<close>

definition extract_datetime :: "string \<Rightarrow> error + datetime" where
  "extract_datetime text =
     (case search DATETIME_PATTERN text of
        None \<Rightarrow> Inl (TableExtractionError (Msg ''extraction of report datetime failed''))
      | Some m \<Rightarrow>
          (case process_datetime_tokens (snd m) of
             Inl e \<Rightarrow> Inl e
           | Inr datetime_dict \<Rightarrow> make_datetime datetime_dict))"

section \<open>Extraction of the table\<close>

text \<open>
  The body of \<^verbatim>\<open>PyPDFTableExtractor.extract\<close>, in three steps. First the tokens of the
  table page:
  \<^verbatim>\<open>
      page = self.unknown_age_matcher.sub('unknown', page)
      data_start = page.find('0-9')
      raw_data = page[data_start:]
      raw_data = raw_data.replace(', ', ',')  # from 28/09, they write "1,5" as "1, 5"
      tokens = raw_data.split(' ')
  \<close>
\<close>

definition tokenize :: "string \<Rightarrow> string list" where
  "tokenize page0 =
     (let page = re_sub unknown_age_matcher ''unknown'' page0;
          data_start = find page ''0-9'';
          raw_data = slice_from data_start page;
          raw_data = replace '', '' '','' raw_data
      in split CHR '' '' raw_data)"

text \<open>
  Then the rows:
  \<^verbatim>\<open>
      num_rows = 11
      num_columns = len(COLUMNS)
      rows = []
      for i in range(num_rows):
          data_start = i * num_columns
          end = data_start + num_columns
          values = convert_values(tokens[data_start:end], COLUMN_CONVERTERS)
          row = [date, *values]
          rows.append(row)
  \<close>
\<close>

definition num_rows :: nat where
  "num_rows = 11"

definition num_columns :: nat where
  "num_columns = length COLUMNS"

fun rows_loop :: "pyval \<Rightarrow> string list \<Rightarrow> nat list \<Rightarrow> error + pyval list list" where
  "rows_loop date tokens [] = Inr []"
| "rows_loop date tokens (i # rest) =
     (let data_start = i * num_columns;
          data_end = data_start + num_columns
      in case convert_values (map PStr (slice data_start data_end tokens)) COLUMN_CONVERTERS of
           Inl e \<Rightarrow> Inl e
         | Inr values \<Rightarrow>
             (case rows_loop date tokens rest of
                Inl e \<Rightarrow> Inl e
              | Inr rows \<Rightarrow> Inr ((date # values) # rows)))"

definition build_rows :: "pyval \<Rightarrow> string list \<Rightarrow> error + pyval list list" where
  "build_rows date tokens = rows_loop date tokens [0..<num_rows]"

text \<open>
  Last the whole method (\<open>extract\<close> is a reserved word of the prover, hence the longer name):
  \<^verbatim>\<open>
      pdf = PdfFileReader(str(report_path))
      date = extract_datetime(extract_text(pdf, page=0))
      page, _ = find_table_page(pdf)
      ...
      df = pd.DataFrame(rows, columns=['date', *COLUMNS])
      return normalize_table(df)
  \<close>
\<close>

definition extract_report :: "pdf \<Rightarrow> error + table" where
  "extract_report pdf =
     (case extract_text pdf 0 of
        Inl e \<Rightarrow> Inl e
      | Inr first \<Rightarrow>
          (case extract_datetime first of
             Inl e \<Rightarrow> Inl e
           | Inr date \<Rightarrow>
               (case find_table_page pdf of
                  Inl e \<Rightarrow> Inl e
                | Inr found \<Rightarrow>
                    (case build_rows (PDate date) (tokenize (fst found)) of
                       Inl e \<Rightarrow> Inl e
                     | Inr rows \<Rightarrow>
                         Inr (normalize_table (DataFrame rows (''date'' # COLUMNS)))))))"

section \<open>Notions used in the statements\<close>

text \<open>
  The repair step as the specification words it: a comma and a space are collapsed to a
  comma only where a digit stands on both sides. It is compared with what the code does.
\<close>

fun repair_between_digits :: "string \<Rightarrow> string" where
  "repair_between_digits (d1 # c # sp # d2 # s) =
     (if is_digit d1 \<and> c = CHR '','' \<and> sp = CHR '' '' \<and> is_digit d2
      then d1 # CHR '','' # repair_between_digits (d2 # s)
      else d1 # repair_between_digits (c # sp # d2 # s))"
| "repair_between_digits s = s"

text \<open>Reading \<^verbatim>\<open>table.at[l, col]\<close>; \<open>None\<close> where pandas raises \<^verbatim>\<open>KeyError\<close>.\<close>

definition read_at :: "nat \<Rightarrow> string \<Rightarrow> table \<Rightarrow> pyval option" where
  "read_at l col t =
     (if col \<in> set (columns t)
      then map_option (\<lambda>r. cell r (index_of col (columns t))) (map_of (body t) l)
      else None)"

text \<open>A row of tokens as \<^verbatim>\<open>extract\<close> converts it, and a table of eleven such rows.\<close>

definition example_row :: "pyval list" where
  "example_row =
     [PDate \<lparr>year = 2021, month = 3, day = 12, hour = 9, minute = 30\<rparr>, PStr ''0-9'',
      PInt 1, PFloat NaN, PInt 2, PFloat NaN, PFloat NaN,
      PInt 3, PFloat NaN, PFloat NaN, PFloat NaN, PFloat NaN,
      PInt 100, PFloat NaN, PInt 2, PFloat NaN, PFloat NaN]"

definition example_table :: table where
  "example_table = DataFrame (replicate 11 example_row) (''date'' # COLUMNS)"

text \<open>
  The cells \<^verbatim>\<open>to_int\<close> produces from tokens: an integer or the missing marker. The sum
  of a column in the plain sense: the integers in it, added up.
\<close>

definition count_cell :: "pyval \<Rightarrow> bool" where
  "count_cell v = (case v of PInt _ \<Rightarrow> True | PFloat NaN \<Rightarrow> True | _ \<Rightarrow> False)"

fun int_values :: "pyval list \<Rightarrow> int list" where
  "int_values [] = []"
| "int_values (PInt n # xs) = n # int_values xs"
| "int_values (_ # xs) = int_values xs"

definition column_cells :: "string \<Rightarrow> table \<Rightarrow> pyval list" where
  "column_cells col t = map (\<lambda>(l, r). cell r (index_of col (columns t))) (body t)"

definition column_total :: "string \<Rightarrow> table \<Rightarrow> int" where
  "column_total col t = sum_list (int_values (column_cells col t))"

text \<open>
  A column of counts in the exact range: integers and missing markers, the absolute
  values of the integers adding up to at most \<open>2 ^ 53\<close>. The value \<^verbatim>\<open>Series.sum()\<close> has on
  such a column: the total as an integer, or as a float when a missing marker is there.
\<close>

definition small_counts :: "pyval list \<Rightarrow> bool" where
  "small_counts cells =
     (list_all count_cell cells \<and> sum_list (map abs (int_values cells)) \<le> 2 ^ 53)"

definition shown_sum :: "pyval list \<Rightarrow> pyval" where
  "shown_sum cells =
     (if PFloat NaN \<in> set cells then PFloat (Fin (of_int (sum_list (int_values cells))))
      else PInt (sum_list (int_values cells)))"

definition checked_columns :: "string list" where
  "checked_columns =
     [''male_cases'', ''male_deaths'', ''female_cases'', ''female_deaths'', ''cases'', ''deaths'']"

text \<open>
  A table whose last row has no counts at all, and the totals of its columns.
\<close>

definition missing_row :: "pyval list" where
  "missing_row =
     [PDate \<lparr>year = 2021, month = 3, day = 12, hour = 9, minute = 30\<rparr>, PStr ''unknown'',
      PFloat NaN, PFloat NaN, PFloat NaN, PFloat NaN, PFloat NaN,
      PFloat NaN, PFloat NaN, PFloat NaN, PFloat NaN, PFloat NaN,
      PFloat NaN, PFloat NaN, PFloat NaN, PFloat NaN, PFloat NaN]"

definition gappy_table :: table where
  "gappy_table = DataFrame (replicate 10 example_row @ [missing_row]) (''date'' # COLUMNS)"

definition gappy_totals :: "string \<rightharpoonup> int" where
  "gappy_totals =
     [''male_cases'' \<mapsto> 10, ''male_deaths'' \<mapsto> 20, ''female_cases'' \<mapsto> 30,
      ''female_deaths'' \<mapsto> 0, ''cases'' \<mapsto> 1000, ''deaths'' \<mapsto> 20]"

text \<open>
  A table with one count beyond the exact range of floats, \<open>2 ^ 53 + 1\<close> cases in its
  first row, and ten rows without counts; and totals that give \<open>2 ^ 53\<close> cases.
\<close>

definition big_row :: "pyval list" where
  "big_row =
     [PDate \<lparr>year = 2021, month = 3, day = 12, hour = 9, minute = 30\<rparr>, PStr ''0-9'',
      PInt 1, PFloat NaN, PInt 2, PFloat NaN, PFloat NaN,
      PInt 3, PFloat NaN, PFloat NaN, PFloat NaN, PFloat NaN,
      PInt 9007199254740993, PFloat NaN, PInt 2, PFloat NaN, PFloat NaN]"

definition big_table :: table where
  "big_table = DataFrame (big_row # replicate 10 missing_row) (''date'' # COLUMNS)"

definition big_totals :: "string \<rightharpoonup> int" where
  "big_totals =
     [''male_cases'' \<mapsto> 1, ''male_deaths'' \<mapsto> 2, ''female_cases'' \<mapsto> 3,
      ''female_deaths'' \<mapsto> 0, ''cases'' \<mapsto> 9007199254740992, ''deaths'' \<mapsto> 2]"

text \<open>
  The text of page \<open>i\<close> as \<^verbatim>\<open>extract_text\<close> returns it, and whether the caption pattern
  is found on that page.
\<close>

definition page_text :: "pdf \<Rightarrow> nat \<Rightarrow> string" where
  "page_text pdf i = replace [CHR 0x0A] [] (pdf ! i)"

definition caption_on :: "pdf \<Rightarrow> nat \<Rightarrow> bool" where
  "caption_on pdf i = (search TABLE_CAPTION_PATTERN (page_text pdf i) \<noteq> None)"

definition not_found :: "error + (string \<times> nat)" where
  "not_found = Inl (TableExtractionError (Msg ''could not find the table in the pdf''))"

text \<open>A page with the caption of the table, and a page without.\<close>

definition caption_page :: string where
  "caption_page =
     ''Tabella 1 - Distribuzione dei casi (n=10)'' @ [CHR 0x0A] @ '' per fascia di et''
       @ [CHR 0xE0] @ '' 0-9 ''"

definition other_page :: string where
  "other_page = ''Il presente rapporto''"

text \<open>
  Token number \<open>i\<close> of the page belongs to column \<open>i mod 16\<close>; it is convertible when
  the converter of that column does not raise on it.
\<close>

definition convertible :: "nat \<Rightarrow> string \<Rightarrow> bool" where
  "convertible i tok = (\<not> isl ((COLUMN_CONVERTERS ! (i mod num_columns)) (PStr tok)))"

text \<open>
  The text of one table row (sixteen tokens, each followed by a space; empty tokens for
  the ratios), a table page of eleven such rows followed by one more word, and a page
  that stops after ten rows.
\<close>

definition row_text :: string where
  "row_text = ''0-9 1  2   3     100  2   ''"

definition wide_page :: string where
  "wide_page = ''Tabella 1 '' @ concat (replicate 11 row_text) @ ''Totale''"

definition short_page :: string where
  "short_page = ''Tabella 1 '' @ concat (replicate 10 row_text) @ ''Totale''"

definition example_date :: pyval where
  "example_date = PDate \<lparr>year = 2021, month = 3, day = 12, hour = 9, minute = 30\<rparr>"

text \<open>Row \<open>i\<close> of the token sequence is complete and each of its tokens is convertible.\<close>

definition row_ok :: "string list \<Rightarrow> nat \<Rightarrow> bool" where
  "row_ok tokens i =
     (i * num_columns + num_columns \<le> length tokens
      \<and> (\<forall>k<num_columns. convertible (i * num_columns + k) (tokens ! (i * num_columns + k))))"

text \<open>The sixteen tokens of \<open>row_text\<close>.\<close>

definition row_tokens :: "string list" where
  "row_tokens =
     [''0-9'', ''1'', '''', ''2'', '''', '''', ''3'', '''', '''', '''', '''',
      ''100'', '''', ''2'', '''', '''']"




section \<open>Properties of the value converters\<close>

subsection \<open>String helpers\<close>

lemma replace_char_delete: "replace [x] [] s = filter (\<lambda>c. c \<noteq> x) s"
  by (induction s) auto

lemma replace_char_map: "replace [x] [y] s = map (\<lambda>c. if c = x then y else c) s"
  by (induction s) auto

lemma digit_not_space: "is_digit c \<Longrightarrow> \<not> is_space c"
  by (auto simp: is_digit_def is_space_def)

lemma digit_not_underscore: "is_digit c \<Longrightarrow> c \<noteq> CHR ''_''"
  by (auto simp: is_digit_def)

lemma point_not_digit: "\<not> is_digit CHR ''.''"
  by (simp add: is_digit_def)

lemma digit_not_separator: "is_digit c \<Longrightarrow> c \<noteq> CHR ''.'' \<and> c \<noteq> CHR '' ''"
  by (auto simp: is_digit_def)

lemma digit_numeral_char: "is_digit c \<Longrightarrow> numeral_char c"
  by (simp add: numeral_char_def)

lemma strip_id:
  assumes "s \<noteq> []" "\<not> is_space (hd s)" "\<not> is_space (last s)"
  shows "strip s = s"
proof -
  have a: "dropWhile is_space s = s" using assms by (cases s) auto
  have "rev s \<noteq> []" "\<not> is_space (hd (rev s))" using assms by (auto simp: hd_rev)
  then have "dropWhile is_space (rev s) = rev s" by (cases "rev s") auto
  with a show ?thesis by (simp add: strip_def)
qed

lemma set_dropWhile_space: "c \<in> set s \<Longrightarrow> c \<in> set (dropWhile is_space s) \<or> is_space c"
  by (induction s) auto

lemma set_strip: "c \<in> set s \<Longrightarrow> c \<in> set (strip s) \<or> is_space c"
proof -
  assume "c \<in> set s"
  then have "c \<in> set (dropWhile is_space s) \<or> is_space c" by (rule set_dropWhile_space)
  then show ?thesis
  proof
    assume "c \<in> set (dropWhile is_space s)"
    then have "c \<in> set (rev (dropWhile is_space s))" by simp
    then have "c \<in> set (dropWhile is_space (rev (dropWhile is_space s))) \<or> is_space c"
      by (rule set_dropWhile_space)
    then show ?thesis by (auto simp: strip_def)
  qed simp
qed

lemma set_strip_sub: "set (strip s) \<subseteq> set s"
proof
  fix c assume "c \<in> set (strip s)"
  then have "c \<in> set (dropWhile is_space (rev (dropWhile is_space s)))"
    by (simp add: strip_def)
  then have "c \<in> set (rev (dropWhile is_space s))" by (rule set_dropWhileD)
  then have "c \<in> set (dropWhile is_space s)" by simp
  then show "c \<in> set s" by (rule set_dropWhileD)
qed

subsection \<open>Integer numerals\<close>

lemma int_body_digits:
  "list_all is_digit ds \<Longrightarrow> int_body acc ds = Some (foldl (\<lambda>a c. 10 * a + digit_val c) acc ds)"
  by (induction ds arbitrary: acc) auto

lemma int_literal_digits:
  assumes "ds \<noteq> []" "list_all is_digit ds" "length ds \<le> max_str_digits"
  shows "int_literal ds = Some (dec ds)"
proof -
  obtain c cs where ds: "ds = c # cs" using assms(1) by (cases ds) auto
  with assms(2) have d: "is_digit c" "list_all is_digit cs" by auto
  from assms(2) have "filter is_digit ds = ds" by (simp add: list_all_iff)
  with assms(3) have "\<not> max_str_digits < length (filter is_digit ds)" by simp
  with d show ?thesis
    unfolding int_literal_def ds by (simp add: dec_def int_body_digits)
qed

lemma int_literal_limit:
  "int_literal s = Some n \<Longrightarrow> length (filter is_digit s) \<le> max_str_digits"
  by (cases s) (auto simp: int_literal_def split: if_splits option.splits)

lemma py_int_digits:
  assumes "ds \<noteq> []" "list_all is_digit ds" "length ds \<le> max_str_digits"
  shows "py_int ds = Some (int (dec ds))"
proof -
  have h: "is_digit (hd ds)" "is_digit (last ds)"
    using assms by (auto simp: list_all_iff)
  then have s: "strip ds = ds" using assms(1) by (simp add: strip_id digit_not_space)
  obtain c cs where ds: "ds = c # cs" using assms(1) by (cases ds) auto
  have "c \<noteq> CHR ''-''" "c \<noteq> CHR ''+''" using h(1) by (auto simp: ds is_digit_def)
  then show ?thesis
    using int_literal_digits[OF assms] s unfolding py_int_def ds by simp
qed

lemma int_body_chars:
  "int_body acc s = Some n \<Longrightarrow> \<forall>c\<in>set s. is_digit c \<or> c = CHR ''_''"
  by (induction acc s rule: int_body.induct) (auto split: if_splits list.splits)

lemma int_literal_chars:
  "int_literal s = Some n \<Longrightarrow> (\<forall>c\<in>set s. is_digit c \<or> c = CHR ''_'') \<and> (\<exists>c\<in>set s. is_digit c)"
  by (cases s) (auto simp: int_literal_def split: if_splits option.splits dest: int_body_chars)

lemma py_int_chars:
  assumes "py_int s = Some n"
  shows "(\<forall>c\<in>set s. numeral_char c) \<and> (\<exists>c\<in>set s. is_digit c)"
proof -
  obtain c cs where st: "strip s = c # cs" using assms by (cases "strip s") (auto simp: py_int_def)
  have "(\<forall>x\<in>set (strip s). numeral_char x) \<and> (\<exists>x\<in>set (strip s). is_digit x)"
    using assms unfolding py_int_def st
    by (auto simp: numeral_char_def split: if_splits dest!: int_literal_chars)
  then show ?thesis
    using set_strip[of _ s] set_strip_sub[of s] by (auto simp: numeral_char_def)
qed

lemma int_body_value:
  "int_body acc s = Some m \<Longrightarrow> m = foldl (\<lambda>a c. 10 * a + digit_val c) acc (filter is_digit s)"
  by (induction acc s rule: int_body.induct)
     (auto split: if_splits list.splits dest: digit_not_underscore)

lemma int_literal_value: "int_literal s = Some m \<Longrightarrow> m = dec (filter is_digit s)"
  by (cases s)
     (auto simp: int_literal_def dec_def split: if_splits option.splits dest: int_body_value)

lemma filter_digit_dropWhile: "filter is_digit (dropWhile is_space s) = filter is_digit s"
  by (induction s) (auto dest: digit_not_space)

lemma filter_digit_strip: "filter is_digit (strip s) = filter is_digit s"
proof -
  have "filter is_digit (strip s) = rev (filter is_digit (dropWhile is_space (rev (dropWhile is_space s))))"
    by (simp add: strip_def rev_filter)
  also have "\<dots> = rev (filter is_digit (rev (dropWhile is_space s)))"
    by (simp only: filter_digit_dropWhile)
  also have "\<dots> = filter is_digit (dropWhile is_space s)"
    by (simp add: rev_filter)
  also have "\<dots> = filter is_digit s" by (rule filter_digit_dropWhile)
  finally show ?thesis .
qed

lemma py_int_value:
  assumes "py_int s = Some n"
  shows "\<bar>n\<bar> = int (dec (filter is_digit s))"
proof -
  obtain c cs where st: "strip s = c # cs" using assms by (cases "strip s") (auto simp: py_int_def)
  have sign: "\<not> is_digit CHR ''-''" "\<not> is_digit CHR ''+''" by (simp_all add: is_digit_def)
  have "\<bar>n\<bar> = int (dec (filter is_digit (strip s)))"
    using assms sign unfolding py_int_def st
    by (auto split: if_splits dest!: int_literal_value)
  then show ?thesis by (simp only: filter_digit_strip)
qed

lemma py_int_limit:
  assumes "py_int s = Some n"
  shows "length (filter is_digit s) \<le> max_str_digits"
proof -
  obtain c cs where st: "strip s = c # cs" using assms by (cases "strip s") (auto simp: py_int_def)
  have sign: "\<not> is_digit CHR ''-''" "\<not> is_digit CHR ''+''" by (simp_all add: is_digit_def)
  have "length (filter is_digit (strip s)) \<le> max_str_digits"
    using assms sign unfolding py_int_def st
    by (auto split: if_splits dest!: int_literal_limit)
  then show ?thesis by (simp only: filter_digit_strip)
qed

lemma to_int_cleanup:
  "replace '' '' '''' (replace ''.'' '''' s) = filter (\<lambda>c. c \<noteq> CHR ''.'' \<and> c \<noteq> CHR '' '') s"
  by (simp add: replace_char_delete conj_commute)

subsection \<open>Decimal literals\<close>

lemma strip_underscores_none:
  "CHR ''_'' \<notin> set s \<Longrightarrow> prev \<noteq> CHR ''_'' \<Longrightarrow> strip_underscores prev s = Some s"
  by (induction s arbitrary: prev) auto

lemma takeWhile_digits_stop:
  "list_all is_digit a \<Longrightarrow> \<not> is_digit c \<Longrightarrow> takeWhile is_digit (a @ c # r) = a"
  by (induction a) auto

lemma dropWhile_digits_stop:
  "list_all is_digit a \<Longrightarrow> \<not> is_digit c \<Longrightarrow> dropWhile is_digit (a @ c # r) = c # r"
  by (induction a) auto

lemma takeWhile_digits_all: "list_all is_digit a \<Longrightarrow> takeWhile is_digit a = a"
  by (induction a) auto

lemma dropWhile_digits_all: "list_all is_digit a \<Longrightarrow> dropWhile is_digit a = []"
  by (induction a) auto

lemma float_literal_decimal:
  assumes "list_all is_digit a" "list_all is_digit b" "a \<noteq> [] \<or> b \<noteq> []"
  shows "float_literal (a @ CHR ''.'' # b) = Some (dec (a @ b), - int (length b))"
  using assms
  by (auto simp: float_literal_def takeWhile_digits_stop dropWhile_digits_stop point_not_digit
      takeWhile_digits_all dropWhile_digits_all)

lemma py_float_decimal:
  assumes a: "list_all is_digit a" "a \<noteq> []" and b: "list_all is_digit b" "b \<noteq> []"
  shows "py_float (a @ CHR ''.'' # b) = Some (round_double False (dec (a @ b)) (10 ^ length b))"
proof -
  let ?s = "a @ CHR ''.'' # b"
  have "CHR ''_'' \<notin> set ?s"
    using a b by (auto simp: list_all_iff dest: digit_not_underscore)
  then have u: "strip_underscores (CHR 0x00) ?s = Some ?s"
    by (rule strip_underscores_none) simp
  have hd: "is_digit (hd ?s)" using a by (cases a) auto
  have la: "is_digit (last ?s)" using b by (auto simp: list_all_iff)
  have st: "strip ?s = ?s"
    using hd la by (intro strip_id) (auto simp: digit_not_space)
  obtain c cs where s: "?s = c # cs" by (cases ?s) auto
  have c: "c \<noteq> CHR ''-''" "c \<noteq> CHR ''+''"
    using hd unfolding s by (auto simp: is_digit_def)
  have fl: "float_literal (c # cs) = Some (dec (a @ b), - int (length b))"
    using float_literal_decimal[of a b] a b unfolding s by simp
  have "py_float ?s = Some (round_double False (dec (a @ b)) (10 ^ length b))"
    unfolding py_float_def u using st c fl b(2) unfolding s by simp
  then show ?thesis .
qed

subsection \<open>The empty token and the missing marker\<close>

text \<open>
  C6 (as the code has it). The empty token converts to the missing marker \<open>nan\<close> under
  \<^verbatim>\<open>to_int\<close> and under \<^verbatim>\<open>to_float\<close>. The converters take text tokens: applied to the
  missing marker itself, which is a float and true, neither is a no-op; both go on to call
  \<^verbatim>\<open>replace\<close> on it and raise \<^verbatim>\<open>AttributeError\<close>.
\<close>

theorem empty_token_missing:
  "to_int (PStr []) = Inr (PFloat NaN) \<and> to_float (PStr []) = Inr (PFloat NaN) \<and>
   to_int (PFloat NaN) = Inl AttributeError \<and> to_float (PFloat NaN) = Inl AttributeError"
  by (simp add: to_int_def to_float_def)

text \<open>
  C6 (as stated) asks that converting the missing marker again yields the missing marker.
  It does not, for either converter.
\<close>

theorem missing_reconversion_counterexample:
  "to_int (PFloat NaN) \<noteq> Inr (PFloat NaN) \<and> to_float (PFloat NaN) \<noteq> Inr (PFloat NaN)"
  by (simp add: to_int_def to_float_def)

subsection \<open>Integer tokens\<close>

lemma to_int_too_many_digits:
  assumes "max_str_digits < length (filter is_digit s)"
  shows "to_int (PStr s) = Inl ValueError"
proof -
  let ?clean = "filter (\<lambda>c. c \<noteq> CHR ''.'' \<and> c \<noteq> CHR '' '') s"
  have d: "filter is_digit ?clean = filter is_digit s"
    using digit_not_separator by (auto intro: filter_cong)
  have "s \<noteq> []" using assms by auto
  then have ti: "to_int (PStr s) = (case py_int ?clean of None \<Rightarrow> Inl ValueError | Some n \<Rightarrow> Inr (PInt n))"
    by (simp add: to_int_def to_int_cleanup)
  have "py_int ?clean = None"
  proof (cases "py_int ?clean")
    case None then show ?thesis .
  next
    case (Some n)
    from py_int_limit[OF Some] d assms show ?thesis by simp
  qed
  then show ?thesis unfolding ti by simp
qed

text \<open>
  C7 (as the code has it). A non-empty token made of decimal digits, \<open>.\<close> and spaces, with
  at least one digit and at most 4300 digits, converts under \<^verbatim>\<open>to_int\<close> to the base-10
  value of its digits. A token of more than 4300 digits raises \<^verbatim>\<open>ValueError\<close>, and so
  does a non-empty token that, once \<open>.\<close> and spaces are deleted, holds a character that
  cannot occur in a numeral, or holds no digit. No non-empty token becomes the missing
  marker: the result is an integer or the error, and an integer that is returned has the
  base-10 value of the digits of the token as its absolute value.
\<close>

theorem to_int_separators:
  assumes "s \<noteq> []"
  shows "((\<forall>c\<in>set s. is_digit c \<or> c = CHR ''.'' \<or> c = CHR '' '') \<and> (\<exists>c\<in>set s. is_digit c)
           \<and> length (filter is_digit s) \<le> max_str_digits
            \<longrightarrow> to_int (PStr s) = Inr (PInt (int (dec (filter is_digit s)))))
       \<and> (max_str_digits < length (filter is_digit s) \<longrightarrow> to_int (PStr s) = Inl ValueError)
       \<and> ((\<exists>c\<in>set s. c \<noteq> CHR ''.'' \<and> c \<noteq> CHR '' '' \<and> \<not> numeral_char c)
              \<or> \<not> (\<exists>c\<in>set s. is_digit c)
            \<longrightarrow> to_int (PStr s) = Inl ValueError)
       \<and> (to_int (PStr s) = Inl ValueError \<or> (\<exists>n. to_int (PStr s) = Inr (PInt n)))
       \<and> (\<forall>n. to_int (PStr s) = Inr (PInt n) \<longrightarrow>
             (\<exists>c\<in>set s. is_digit c) \<and> \<bar>n\<bar> = int (dec (filter is_digit s)))"
proof -
  let ?keep = "\<lambda>c. c \<noteq> CHR ''.'' \<and> c \<noteq> CHR '' ''"
  let ?clean = "filter ?keep s"
  have ti: "to_int (PStr s) = (case py_int ?clean of None \<Rightarrow> Inl ValueError | Some n \<Rightarrow> Inr (PInt n))"
    using assms by (simp add: to_int_def to_int_cleanup)
  have total: "to_int (PStr s) = Inl ValueError \<or> (\<exists>n. to_int (PStr s) = Inr (PInt n))"
    unfolding ti by (cases "py_int ?clean") simp_all
  have good: "to_int (PStr s) = Inr (PInt (int (dec (filter is_digit s))))"
    if all: "\<forall>c\<in>set s. is_digit c \<or> c = CHR ''.'' \<or> c = CHR '' ''"
      and some: "\<exists>c\<in>set s. is_digit c"
      and few: "length (filter is_digit s) \<le> max_str_digits"
  proof -
    have "?keep c = is_digit c" if "c \<in> set s" for c
      using all that digit_not_separator[of c] by blast
    then have eq: "?clean = filter is_digit s" by (rule filter_cong[OF refl])
    have ne: "filter is_digit s \<noteq> []" using some by (simp add: filter_empty_conv)
    have "list_all is_digit (filter is_digit s)" by (simp add: list_all_iff)
    with ne have "py_int (filter is_digit s) = Some (int (dec (filter is_digit s)))"
      using few by (intro py_int_digits)
    then show ?thesis unfolding ti eq by simp
  qed
  have long: "to_int (PStr s) = Inl ValueError" if "max_str_digits < length (filter is_digit s)"
    using that by (rule to_int_too_many_digits)
  have bad: "to_int (PStr s) = Inl ValueError"
    if h: "(\<exists>c\<in>set s. ?keep c \<and> \<not> numeral_char c) \<or> \<not> (\<exists>c\<in>set s. is_digit c)"
  proof -
    have "py_int ?clean = None"
    proof (cases "py_int ?clean")
      case None then show ?thesis .
    next
      case (Some n)
      from py_int_chars[OF Some]
      have a: "\<forall>c\<in>set ?clean. numeral_char c" and b: "\<exists>c\<in>set ?clean. is_digit c" by blast+
      from a have "\<forall>c\<in>set s. ?keep c \<longrightarrow> numeral_char c" by simp
      moreover from b have "\<exists>c\<in>set s. is_digit c" by auto
      ultimately have False using h by blast
      then show ?thesis ..
    qed
    then show ?thesis unfolding ti by simp
  qed
  have val: "(\<exists>c\<in>set s. is_digit c) \<and> \<bar>n\<bar> = int (dec (filter is_digit s))"
    if r: "to_int (PStr s) = Inr (PInt n)" for n
  proof -
    from r have p: "py_int ?clean = Some n"
      unfolding ti by (cases "py_int ?clean") simp_all
    from py_int_chars[OF p] have d: "\<exists>c\<in>set s. is_digit c" by auto
    have "filter is_digit ?clean = filter is_digit s"
      using digit_not_separator by (auto intro: filter_cong)
    with py_int_value[OF p] have "\<bar>n\<bar> = int (dec (filter is_digit s))" by simp
    with d show ?thesis by blast
  qed
  from total good long bad val show ?thesis by blast
qed

theorem to_int_separators_witness:
  "to_int (PStr ''1.234'') = Inr (PInt 1234) \<and> to_int (PStr ''12 345'') = Inr (PInt 12345)
   \<and> to_int (PStr ''12a'') = Inl ValueError \<and> to_int (PStr ''.'') = Inl ValueError
   \<and> to_int (PStr (replicate 4301 CHR ''7'' @ ''.0'')) = Inl ValueError"
proof -
  have d: "dec ''1234'' = 1234" "dec ''12345'' = 12345" by code_simp+
  have a: "to_int (PStr ''1.234'') = Inr (PInt 1234)"
    using to_int_separators[of "''1.234''"] d by (simp add: is_digit_def max_str_digits_def)
  have b: "to_int (PStr ''12 345'') = Inr (PInt 12345)"
    using to_int_separators[of "''12 345''"] d by (simp add: is_digit_def max_str_digits_def)
  have c: "to_int (PStr ''12a'') = Inl ValueError"
    using to_int_separators[of "''12a''"] by (simp add: is_digit_def numeral_char_def is_space_def)
  have e: "to_int (PStr ''.'') = Inl ValueError"
    using to_int_separators[of "''.''"] by (simp add: is_digit_def)
  have "is_digit CHR ''7''" "is_digit CHR ''0''" "\<not> is_digit CHR ''.''" by (simp_all add: is_digit_def)
  then have "max_str_digits < length (filter is_digit (replicate 4301 CHR ''7'' @ ''.0''))"
    by (simp add: max_str_digits_def)
  moreover have "replicate 4301 CHR ''7'' @ ''.0'' \<noteq> []" by simp
  ultimately have f: "to_int (PStr (replicate 4301 CHR ''7'' @ ''.0'')) = Inl ValueError"
    using to_int_separators[of "replicate 4301 CHR ''7'' @ ''.0''"] by blast
  from a b c e f show ?thesis by simp
qed

text \<open>
  C7 (as stated) has every non-empty token of digits converted to its value. A token of
  4301 digits is such a token, and \<^verbatim>\<open>int\<close> refuses it: the conversion raises
  \<^verbatim>\<open>ValueError\<close>.
\<close>

theorem long_token_counterexample:
  "list_all is_digit (replicate 4301 CHR ''1'')
   \<and> to_int (PStr (replicate 4301 CHR ''1'')) = Inl ValueError"
proof -
  have d: "is_digit CHR ''1''" by (simp add: is_digit_def)
  then have "max_str_digits < length (filter is_digit (replicate 4301 CHR ''1''))"
    by (simp add: max_str_digits_def)
  then have "to_int (PStr (replicate 4301 CHR ''1'')) = Inl ValueError"
    by (rule to_int_too_many_digits)
  with d show ?thesis by (simp add: list_all_iff)
qed

subsection \<open>Ratio tokens\<close>

text \<open>
  C8. For a non-empty token, \<^verbatim>\<open>to_float\<close> gives what \<^verbatim>\<open>float\<close> gives on the token with
  every \<open>,\<close> turned into \<open>.\<close>. For a token \<open>a,b\<close> with digit strings \<open>a\<close> and \<open>b\<close> this is the
  binary64 value nearest to the decimal number \<open>a.b\<close>.
\<close>

theorem to_float_decimal_comma:
  "(s \<noteq> [] \<longrightarrow>
      to_float (PStr s) =
        (case py_float (map (\<lambda>c. if c = CHR '','' then CHR ''.'' else c) s) of
           None \<Rightarrow> Inl ValueError
         | Some x \<Rightarrow> Inr (PFloat x)))
   \<and> (list_all is_digit a \<and> a \<noteq> [] \<and> list_all is_digit b \<and> b \<noteq> [] \<longrightarrow>
        to_float (PStr (a @ CHR '','' # b)) =
          Inr (PFloat (round_double False (dec (a @ b)) (10 ^ length b))))"
proof (intro conjI impI)
  assume "s \<noteq> []"
  then show "to_float (PStr s) =
        (case py_float (map (\<lambda>c. if c = CHR '','' then CHR ''.'' else c) s) of
           None \<Rightarrow> Inl ValueError
         | Some x \<Rightarrow> Inr (PFloat x))"
    by (simp add: to_float_def replace_char_map)
next
  assume h: "list_all is_digit a \<and> a \<noteq> [] \<and> list_all is_digit b \<and> b \<noteq> []"
  have comma: "\<And>c. is_digit c \<Longrightarrow> c \<noteq> CHR '',''" by (auto simp: is_digit_def)
  have "map (\<lambda>c. if c = CHR '','' then CHR ''.'' else c) a = a"
       "map (\<lambda>c. if c = CHR '','' then CHR ''.'' else c) b = b"
    using h comma by (auto simp: list_all_iff map_idI)
  then have "replace '','' ''.'' (a @ CHR '','' # b) = a @ CHR ''.'' # b"
    by (simp add: replace_char_map)
  moreover have "py_float (a @ CHR ''.'' # b) = Some (round_double False (dec (a @ b)) (10 ^ length b))"
    using h by (intro py_float_decimal) auto
  ultimately show "to_float (PStr (a @ CHR '','' # b)) =
          Inr (PFloat (round_double False (dec (a @ b)) (10 ^ length b)))"
    by (simp add: to_float_def)
qed

theorem to_float_decimal_comma_witness:
  "to_float (PStr ''12,5'') = Inr (PFloat (Fin (25 / 2)))"
proof -
  have d: "dec (''12'' @ ''5'') = 125"
    by (simp add: dec_def digit_val_def)
  have r: "round_double False 125 (10 ^ length ''5'') = Fin (25 / 2)"
    by (simp add: round_double_def round_half_even_def bitlen.simps Let_def)
  have h: "list_all is_digit ''12'' \<and> ''12'' \<noteq> [] \<and> list_all is_digit ''5'' \<and> ''5'' \<noteq> []"
    by (simp add: is_digit_def)
  have "to_float (PStr (''12'' @ CHR '','' # ''5'')) =
          Inr (PFloat (round_double False (dec (''12'' @ ''5'')) (10 ^ length ''5'')))"
    using to_float_decimal_comma[of "''12,5''" "''12''" "''5''"] h by blast
  then show ?thesis unfolding d r by simp
qed

section \<open>The repair of wrapped decimals\<close>

lemma replace_comma_space_simps:
  "replace '', '' '','' [] = []"
  "replace '', '' '','' [c] = [c]"
  "replace '', '' '','' (c # d # s) =
     (if c = CHR '','' \<and> d = CHR '' '' then CHR '','' # replace '', '' '','' s
      else c # replace '', '' '','' (d # s))"
  by auto

lemma replace_comma_space_append:
  "replace '', '' '','' (a @ '', '' @ b) = replace '', '' '','' a @ '','' @ replace '', '' '','' b"
proof (induction a rule: induct_list012)
  case 1
  show ?case by (simp del: replace.simps add: replace_comma_space_simps)
next
  case (2 x)
  show ?case by (simp del: replace.simps add: replace_comma_space_simps)
next
  case (3 x y zs)
  then show ?case by (simp del: replace.simps add: replace_comma_space_simps)
qed

lemma find_from_ge: "find_from i sub s \<noteq> - 1 \<Longrightarrow> int i \<le> find_from i sub s"
  by (induction i sub s rule: find_from.induct) (auto split: if_splits)

lemma find_from_absent:
  "sub \<noteq> [] \<Longrightarrow> find_from i sub s = - 1 \<Longrightarrow> replace sub new s = s"
proof (induction i sub s rule: find_from.induct)
  case (1 i sub)
  then show ?case by simp
next
  case (2 i sub c s)
  then show ?case by (auto split: if_splits)
qed

text \<open>
  C4 (as the code has it). The repair is \<^verbatim>\<open>raw_data.replace(', ', ',')\<close>: every comma
  followed by a space is collapsed to a comma, whatever stands on either side, scanning
  from the left. So the text splits around each such occurrence, a text without a comma
  followed by a space (\<^verbatim>\<open>find\<close> gives \<open>-1\<close>) is unchanged, and \<open>3, 5\<close> becomes the single
  token \<open>3,5\<close>.
\<close>

theorem comma_space_repair:
  "replace '', '' '','' (a @ '', '' @ b) = replace '', '' '','' a @ '','' @ replace '', '' '','' b
   \<and> (find s '', '' = - 1 \<longrightarrow> replace '', '' '','' s = s)
   \<and> split CHR '' '' (replace '', '' '','' ''3, 5'') = [''3,5'']"
proof (intro conjI impI)
  show "replace '', '' '','' (a @ '', '' @ b) = replace '', '' '','' a @ '','' @ replace '', '' '','' b"
    by (rule replace_comma_space_append)
  show "replace '', '' '','' s = s" if "find s '', '' = - 1"
    using that unfolding find_def by (intro find_from_absent[where i = 0]) simp_all
  show "split CHR '' '' (replace '', '' '','' ''3, 5'') = [''3,5'']"
    by simp
qed

theorem comma_space_repair_witness:
  "find ''0-9 3,5 x'' '', '' = - 1 \<and> replace '', '' '','' ''0-9 3,5 x'' = ''0-9 3,5 x''
   \<and> replace '', '' '','' (''1'' @ '', '' @ ''5 a, b'') = ''1,5 a,b''"
proof -
  have f: "find ''0-9 3,5 x'' '', '' = - 1" by (simp add: find_def)
  have "replace '', '' '','' (''1'' @ '', '' @ ''5 a, b'') = replace '', '' '','' ''1'' @ '','' @ replace '', '' '','' ''5 a, b''"
    using comma_space_repair[of "''1''" "''5 a, b''" "[]"] by blast
  moreover have "replace '', '' '','' ''0-9 3,5 x'' = ''0-9 3,5 x''"
    using comma_space_repair[of "[]" "[]" "''0-9 3,5 x''"] f by blast
  ultimately show ?thesis using f by simp
qed

text \<open>
  C4 (as stated) restricts the repair to occurrences with a digit on both sides and leaves
  other text unchanged. In \<open>a, b\<close> no digit is involved, and the code collapses it all
  the same: the page \<open>0-9 a, b\<close> gives the tokens \<open>0-9\<close> and \<open>a,b\<close>.
\<close>

theorem digit_flanking_counterexample:
  "replace '', '' '','' ''a, b'' \<noteq> repair_between_digits ''a, b''
   \<and> tokenize ''0-9 a, b'' = [''0-9'', ''a,b'']"
  by (simp add: tokenize_def is_digit_def unknown_age_matcher_def lit_def read_char_def same_letter_def in_class_def lower_def
      char_of_eq_iff find_def slice_from_def)

section \<open>Normalisation of the table\<close>

lemma index_of_less: "x \<in> set xs \<Longrightarrow> index_of x xs < length xs"
  by (induction xs) auto

lemma DataFrame_labels: "map fst (body (DataFrame rows cols)) = [0..<length rows]"
  by (simp add: DataFrame_def)

lemma set_at_DataFrame:
  assumes "l < length rows" "col \<in> set cols"
  shows "set_at l col v (DataFrame rows cols) =
         DataFrame (rows[l := (rows ! l)[index_of col cols := v]]) cols"
proof -
  let ?j = "index_of col cols"
  let ?t = "DataFrame rows cols"
  have m: "map (\<lambda>(l', r). if l' = l then (l', r[?j := v]) else (l', r)) (zip [0..<length rows] rows)
        = zip [0..<length rows] (rows[l := (rows ! l)[?j := v]])"
    by (rule nth_equalityI) (auto simp: nth_list_update)
  have cd: "columns ?t = cols" and bd: "body ?t = zip [0..<length rows] rows"
    by (simp_all add: DataFrame_def)
  have c: "col \<in> set (columns ?t)" using assms(2) by (simp add: DataFrame_def)
  have "l \<in> set [0..<length rows]" using assms(1) by simp
  then have i: "l \<in> set (map fst (body ?t))" by (simp only: DataFrame_labels)
  have "set_at l col v ?t =
        ?t\<lparr>body := map (\<lambda>(l', r). if l' = l then (l', r[index_of col (columns ?t) := v]) else (l', r)) (body ?t)\<rparr>"
    unfolding set_at_def Let_def using c i by (simp only: if_True)
  also have "\<dots> = ?t\<lparr>body := zip [0..<length rows] (rows[l := (rows ! l)[?j := v]])\<rparr>"
    by (simp only: cd bd m)
  also have "\<dots> = DataFrame (rows[l := (rows ! l)[?j := v]]) cols"
    by (simp add: DataFrame_def)
  finally show ?thesis .
qed

lemma map_of_DataFrame:
  "map_of (body (DataFrame rows cols)) l = (if l < length rows then Some (rows ! l) else None)"
proof -
  have "map_of (zip [0..<length rows] rows) l = (if l < length rows then Some (rows ! l) else None)"
  proof (cases "l < length rows")
    case True
    then have "map_of (zip [0..<length rows] rows) ([0..<length rows] ! l) = Some (rows ! l)"
      by (intro map_of_zip_nth) auto
    with True show ?thesis by simp
  next
    case False
    then have "l \<notin> set [0..<length rows]" by simp
    then have "map_of (zip [0..<length rows] rows) l = None"
      by (simp add: map_of_zip_is_None)
    with False show ?thesis by simp
  qed
  then show ?thesis by (simp add: DataFrame_def)
qed

lemma read_at_DataFrame:
  "read_at l col (DataFrame rows cols) =
     (if col \<in> set cols \<and> l < length rows then Some (cell (rows ! l) (index_of col cols)) else None)"
  by (simp add: read_at_def map_of_DataFrame) (simp add: DataFrame_def)

lemma normalize_table_DataFrame:
  assumes "length rows = 11" "''age_group'' \<in> set cols"
  shows "normalize_table (DataFrame rows cols) =
         DataFrame (rows[9 := (rows ! 9)[index_of ''age_group'' cols := PStr ''>=90''],
                         10 := (rows ! 10)[index_of ''age_group'' cols := PStr ''unknown'']]) cols"
  using assms by (simp add: normalize_table_def set_at_DataFrame)

lemma nth_index_of: "x \<in> set xs \<Longrightarrow> xs ! index_of x xs = x"
  by (induction xs) auto

lemma index_of_eq_iff:
  "x \<in> set xs \<Longrightarrow> y \<in> set xs \<Longrightarrow> index_of x xs = index_of y xs \<longleftrightarrow> x = y"
  using nth_index_of by metis

text \<open>
  C5 (as the code has it). For a table of eleven rows built by \<^verbatim>\<open>pd.DataFrame\<close> with a
  column \<open>age_group\<close>, \<^verbatim>\<open>normalize_table\<close> keeps the columns and the row labels, writes
  the ASCII text \<open>>=90\<close> as the age group of row 9 and \<open>unknown\<close> as that of row 10,
  whatever these cells held, and leaves every other cell as it was: the numeric fields
  and the date of every row, and the age groups of rows 0 to 8.
\<close>

theorem normalize_table_labels:
  assumes "length rows = 11" "''age_group'' \<in> set cols" "\<forall>r\<in>set rows. length r = length cols"
  shows "columns (normalize_table (DataFrame rows cols)) = cols
       \<and> map fst (body (normalize_table (DataFrame rows cols))) = [0..<11]
       \<and> read_at 9 ''age_group'' (normalize_table (DataFrame rows cols)) = Some (PStr ''>=90'')
       \<and> read_at 10 ''age_group'' (normalize_table (DataFrame rows cols)) = Some (PStr ''unknown'')
       \<and> (\<forall>l col. \<not> (l \<in> {9, 10} \<and> col = ''age_group'') \<longrightarrow>
             read_at l col (normalize_table (DataFrame rows cols)) = read_at l col (DataFrame rows cols))"
proof -
  let ?j = "index_of ''age_group'' cols"
  let ?rows' = "rows[9 := (rows ! 9)[?j := PStr ''>=90''], 10 := (rows ! 10)[?j := PStr ''unknown'']]"
  have n: "normalize_table (DataFrame rows cols) = DataFrame ?rows' cols"
    using assms(1,2) by (rule normalize_table_DataFrame)
  have j: "?j < length cols" using assms(2) by (rule index_of_less)
  have len: "length (rows ! 9) = length cols" "length (rows ! 10) = length cols"
    using assms(1,3) by auto
  have c: "columns (DataFrame ?rows' cols) = cols" by (simp add: DataFrame_def)
  have l: "map fst (body (DataFrame ?rows' cols)) = [0..<11]"
    using assms(1) by (simp add: DataFrame_labels)
  have a: "read_at 9 ''age_group'' (DataFrame ?rows' cols) = Some (PStr ''>=90'')"
    using assms(1,2) j len by (simp add: read_at_DataFrame cell_def)
  have b: "read_at 10 ''age_group'' (DataFrame ?rows' cols) = Some (PStr ''unknown'')"
    using assms(1,2) j len by (simp add: read_at_DataFrame cell_def)
  have f: "read_at l col (DataFrame ?rows' cols) = read_at l col (DataFrame rows cols)"
    if h: "\<not> (l \<in> {9, 10} \<and> col = ''age_group'')" for l col
  proof (cases "col \<in> set cols")
    case True
    with h assms(2) have "\<not> (l \<in> {9, 10} \<and> index_of col cols = ?j)"
      by (simp add: index_of_eq_iff)
    then show ?thesis
      using assms(1) by (auto simp: read_at_DataFrame cell_def nth_list_update)
  next
    case False
    then show ?thesis by (simp add: read_at_DataFrame)
  qed
  from c l a b f show ?thesis unfolding n by blast
qed

lemma example_table_shape:
  "length (replicate 11 example_row) = 11"
  "''age_group'' \<in> set (''date'' # COLUMNS)"
  "\<forall>r\<in>set (replicate 11 example_row). length r = length (''date'' # COLUMNS)"
  by (simp_all add: example_row_def COLUMNS_def cartesian_join_def COLUMN_PREFIXES_def
      COLUMN_FIELDS_def)

theorem normalize_table_labels_witness:
  "read_at 9 ''age_group'' (normalize_table example_table) = Some (PStr ''>=90'')
   \<and> read_at 10 ''age_group'' (normalize_table example_table) = Some (PStr ''unknown'')
   \<and> read_at 8 ''age_group'' (normalize_table example_table) = read_at 8 ''age_group'' example_table
   \<and> read_at 9 ''cases'' (normalize_table example_table) = read_at 9 ''cases'' example_table"
  using normalize_table_labels[OF example_table_shape] unfolding example_table_def by simp

text \<open>
  C5 (as stated) has row 9 labelled with the three characters \<open>U+2265\<close>, \<open>9\<close>, \<open>0\<close>. The
  code writes the four ASCII characters \<open>>=90\<close>, as its comment says.
\<close>

theorem normalize_label_counterexample:
  "read_at 9 ''age_group'' (normalize_table example_table) = Some (PStr ''>=90'')
   \<and> map of_char ''>=90'' \<noteq> [8805, 57, 48 :: nat]"
proof -
  have "read_at 9 ''age_group'' (normalize_table example_table) = Some (PStr ''>=90'')"
    unfolding example_table_def
    by (simp add: normalize_table_DataFrame example_table_shape read_at_DataFrame cell_def
        example_row_def COLUMNS_def)
  then show ?thesis by simp
qed

section \<open>Validation against the totals\<close>

text \<open>
  Integers of at most 53 bits are floats: rounding them to binary64 changes nothing.
\<close>

lemma bitlen_bounds: "0 < n \<Longrightarrow> 2 ^ (bitlen n - 1) \<le> n \<and> n < 2 ^ bitlen n"
proof (induction n rule: bitlen.induct)
  case (1 n)
  show ?case
  proof (cases "n div 2 = 0")
    case True
    with 1(2) have "n = 1" by (simp add: div_eq_0_iff) 
    then show ?thesis by (simp add: bitlen.simps)
  next
    case False
    then have p: "0 < n div 2" by simp
    from 1(2) have n0: "n \<noteq> 0" by simp
    from 1(1)[OF n0 p] have ih: "2 ^ (bitlen (n div 2) - 1) \<le> n div 2" "n div 2 < 2 ^ bitlen (n div 2)"
      by simp_all
    have b: "bitlen n = Suc (bitlen (n div 2))" using n0 by (subst bitlen.simps) simp
    have pos: "0 < bitlen (n div 2)" using p by (subst bitlen.simps) simp
    then obtain k where k: "bitlen (n div 2) = Suc k" by (cases "bitlen (n div 2)") auto
    from ih k have "2 ^ k \<le> n div 2" "n div 2 < 2 ^ Suc k" by simp_all
    then have "2 * 2 ^ k \<le> n" "n < 2 * 2 ^ Suc k" by linarith+
    then show ?thesis unfolding b k by simp
  qed
qed

lemma round_half_even_one: "round_half_even p 1 = p" "round_half_even p (Suc 0) = p"
  by (simp_all add: round_half_even_def)

lemma round_double_nat_exact:
  assumes "0 < n" "n \<le> 2 ^ 53"
  shows "round_double neg n 1 = Fin ((if neg then - 1 else 1) * of_nat n)"
proof -
  define b where "b = bitlen n"
  from bitlen_bounds[OF assms(1)] have bb: "2 ^ (b - 1) \<le> n" "n < 2 ^ b"
    unfolding b_def by simp_all
  have b1: "1 \<le> b" using bb(2) assms(1) by (cases b) auto
  have "(2::nat) ^ (b - 1) \<le> 2 ^ 53" using bb(1) assms(2) by (rule le_trans)
  then have le: "(2::nat) ^ (b - 1) \<le> 2 ^ 53" .
  have b54: "b \<le> 54"
  proof (rule ccontr)
    assume "\<not> b \<le> 54"
    then have "54 \<le> b - 1" by simp
    then have "(2::nat) ^ 54 \<le> 2 ^ (b - 1)" by (rule power_increasing) simp
    from this le have "(2::nat) ^ 54 \<le> 2 ^ 53" by (rule le_trans)
    then show False by simp
  qed
  have one: "bitlen 1 = 1" "bitlen (Suc 0) = Suc 0" by (simp_all add: bitlen.simps)
  have n0: "n \<noteq> 0" using assms(1) by simp
  have e0: "nat (int b - 1) = b - 1" "nat (- (int b - 1)) = 0" using b1 by simp_all
  show ?thesis
  proof (cases "b = 54")
    case True
    then have "2 ^ 53 \<le> n" using bb(1) by simp
    with assms(2) have n: "n = 2 ^ 53" by simp
    show ?thesis
      unfolding n by (simp add: round_double_def round_half_even_def bitlen.simps Let_def)
  next
    case False
    with b54 have b53: "b \<le> 53" by simp
    define e0 where "e0 = int (bitlen n) - int (bitlen 1)"
    define e where "e = (if 1 * 2 ^ nat e0 \<le> n * 2 ^ nat (- e0) then e0 else e0 - 1)"
    define k where "k = max (e - 52) (- 1074)"
    define m where "m = round_half_even (n * 2 ^ nat (- k)) (1 * 2 ^ nat k)"
    have e0: "e0 = int b - 1" by (simp add: e0_def one b_def)
    have "nat e0 = b - 1" "nat (- e0) = 0" using b1 by (simp_all add: e0)
    then have e: "e = int b - 1" using bb(1) by (simp add: e_def e0)
    have k: "k = int b - 53" using b1 by (simp add: k_def e)
    have nk: "nat (- k) = 53 - b" "nat k = 0" using b53 by (simp_all add: k)
    have m: "m = n * 2 ^ (53 - b)" by (simp add: m_def nk round_half_even_one)
    have "(2::nat) ^ (53 - b) \<le> 2 ^ 53" by (rule power_increasing) simp_all
    have "n * 2 ^ (53 - b) < 2 ^ b * 2 ^ (53 - b)" using bb(2) by simp
    also have "\<dots> = 2 ^ 53" using b53 by (simp add: power_add[symmetric])
    finally have "m < 2 ^ 53" by (simp add: m)
    then have ninf: "\<not> (0 \<le> k \<and> 2 ^ 1024 \<le> m * 2 ^ nat k)" by (simp add: nk)
    have "round_double neg n 1 =
          (if 0 \<le> k \<and> 2 ^ 1024 \<le> m * 2 ^ nat k then Infty neg
           else Fin ((if neg then - 1 else 1) * (of_nat (m * 2 ^ nat k) / of_nat (2 ^ nat (- k)))))"
      by (simp only: round_double_def Let_def e0_def e_def k_def m_def n0 if_False)
    also have "\<dots> = Fin ((if neg then - 1 else 1) * (of_nat (m * 2 ^ nat k) / of_nat (2 ^ nat (- k))))"
      using ninf by (simp only: if_False)
    also have "of_nat (m * 2 ^ nat k) / of_nat (2 ^ nat (- k)) = (of_nat n :: rat)"
      by (simp add: m nk)
    finally show ?thesis .
  qed
qed

lemma float_of_int_exact:
  assumes "\<bar>n\<bar> \<le> 2 ^ 53"
  shows "float_of_int n = Fin (of_int n)"
proof (cases "n = 0")
  case True
  then show ?thesis by (simp add: float_of_int_def round_double_def)
next
  case False
  then have p: "0 < nat \<bar>n\<bar>" by simp
  have "nat \<bar>n\<bar> \<le> 2 ^ 53" using assms by (simp add: nat_le_iff)
  from round_double_nat_exact[OF p this, of "n < 0"]
  show ?thesis by (cases "n < 0") (simp_all add: float_of_int_def)
qed

text \<open>
  The sum of a column of counts in the exact range, and its comparison with a total.
\<close>

lemma wrap64_small: "\<bar>n\<bar> \<le> 2 ^ 53 \<Longrightarrow> wrap64 n = n"
  by (simp add: wrap64_def)

lemma int64_small: "\<bar>n\<bar> \<le> 2 ^ 53 \<Longrightarrow> int64 n"
  by (simp add: int64_def abs_le_iff)

lemma count_cell_cases: "count_cell v \<Longrightarrow> (\<exists>n. v = PInt n) \<or> v = PFloat NaN"
  by (auto simp: count_cell_def split: pyval.splits pyfloat.splits)

lemma sum_abs_nonneg: "0 \<le> sum_list (map abs ns)" for ns :: "int list"
  by (induction ns) auto

lemma abs_le_sum_abs: "n \<in> set ns \<Longrightarrow> \<bar>n\<bar> \<le> sum_list (map abs ns)" for n :: int
proof (induction ns)
  case Nil
  then show ?case by simp
next
  case (Cons a ns)
  have "0 \<le> sum_list (map abs ns)" by (rule sum_abs_nonneg)
  with Cons show ?case by auto
qed

lemma int_values_member: "PInt n \<in> set cells \<Longrightarrow> n \<in> set (int_values cells)"
  by (induction cells rule: int_values.induct) auto

lemma small_counts_int64:
  assumes "small_counts cells" "PInt n \<in> set cells"
  shows "\<bar>n\<bar> \<le> 2 ^ 53"
proof -
  from assms(2) have "n \<in> set (int_values cells)" by (rule int_values_member)
  then have "\<bar>n\<bar> \<le> sum_list (map abs (int_values cells))" by (rule abs_le_sum_abs)
  also have "\<dots> \<le> 2 ^ 53" using assms(1) by (simp add: small_counts_def)
  finally show ?thesis .
qed

lemma small_counts_total:
  assumes "small_counts cells"
  shows "\<bar>sum_list (int_values cells)\<bar> \<le> 2 ^ 53"
proof -
  have "\<bar>sum_list (int_values cells)\<bar> \<le> sum_list (map abs (int_values cells))"
    by (rule sum_list_abs)
  also have "\<dots> \<le> 2 ^ 53" using assms by (simp add: small_counts_def)
  finally show ?thesis .
qed

lemma as_series_ints:
  assumes "small_counts cells" "PFloat NaN \<notin> set cells"
  shows "as_series cells = IntSeries (int_values cells)"
proof -
  have c: "\<exists>n. v = PInt n \<and> \<bar>n\<bar> \<le> 2 ^ 53" if "v \<in> set cells" for v
  proof -
    from assms(1) that have "count_cell v" by (simp add: small_counts_def list_all_iff)
    with assms(2) that obtain n where "v = PInt n" by (auto dest: count_cell_cases)
    with that small_counts_int64[OF assms(1)] show ?thesis by blast
  qed
  have "int_cell v" if "v \<in> set cells" for v
  proof -
    from c[OF that] obtain n where "v = PInt n" "\<bar>n\<bar> \<le> 2 ^ 53" by blast
    then show ?thesis by (simp add: int64_small)
  qed
  then have "list_all int_cell cells" by (simp add: list_all_iff)
  moreover have "map cell_int cells = int_values cells"
    using c by (induction cells rule: int_values.induct) auto
  ultimately show ?thesis by (simp add: as_series_def)
qed

lemma map_cell_float:
  "\<forall>v\<in>set cells. (\<exists>n. v = PInt n \<and> \<bar>n\<bar> \<le> 2 ^ 53) \<or> v = PFloat NaN \<Longrightarrow>
   finite_values (map cell_float cells) = Some (map of_int (int_values cells))"
  by (induction cells rule: int_values.induct) (auto simp: float_of_int_exact)

lemma as_series_floats:
  assumes "small_counts cells" "PFloat NaN \<in> set cells"
  shows "as_series cells = FloatSeries (map cell_float cells)
       \<and> finite_values (map cell_float cells) = Some (map of_int (int_values cells))"
proof -
  have c: "(\<exists>n. v = PInt n \<and> \<bar>n\<bar> \<le> 2 ^ 53) \<or> v = PFloat NaN" if "v \<in> set cells" for v
  proof -
    from assms(1) that have "count_cell v" by (simp add: small_counts_def list_all_iff)
    then have "(\<exists>n. v = PInt n) \<or> v = PFloat NaN" by (rule count_cell_cases)
    with that small_counts_int64[OF assms(1)] show ?thesis by blast
  qed
  have "\<not> int_cell (PFloat NaN)" by simp
  with assms(2) have "\<not> list_all int_cell cells" unfolding list_all_iff by blast
  moreover have "numeric_cell v" if "v \<in> set cells" for v
    using c[OF that] by (auto simp: int64_small)
  then have "list_all numeric_cell cells" by (simp add: list_all_iff)
  ultimately have "as_series cells = FloatSeries (map cell_float cells)"
    by (simp add: as_series_def)
  moreover have "finite_values (map cell_float cells) = Some (map of_int (int_values cells))"
    using c by (intro map_cell_float) blast
  ultimately show ?thesis by blast
qed

lemma exact_sum_ints:
  assumes "sum_list (map abs ns) \<le> 2 ^ 53"
  shows "exact_sum (map of_int ns)"
proof -
  have "sum_list (map abs (map rat_of_int ns)) = of_int (sum_list (map abs ns))"
    by (induction ns) auto
  also have "\<dots> \<le> 2 ^ 53"
  proof -
    have "rat_of_int (sum_list (map abs ns)) \<le> rat_of_int (2 ^ 53)"
      using assms by (simp only: of_int_le_iff)
    then show ?thesis by simp
  qed
  finally have "sum_list (map abs (map rat_of_int ns)) \<le> 2 ^ 53" .
  then show ?thesis by (simp add: exact_sum_def list_all_iff)
qed

lemma sum_list_of_int: "sum_list (map rat_of_int ns) = of_int (sum_list ns)"
  by (induction ns) auto

lemma series_sum_small:
  assumes "small_counts cells"
  shows "series_sum (as_series cells) = Inr (shown_sum cells)"
proof (cases "PFloat NaN \<in> set cells")
  case False
  with assms have "as_series cells = IntSeries (int_values cells)" by (rule as_series_ints)
  with False small_counts_total[OF assms] show ?thesis
    by (simp add: shown_sum_def wrap64_small)
next
  case True
  from as_series_floats[OF assms True]
  have a: "as_series cells = FloatSeries (map cell_float cells)"
    and f: "finite_values (map cell_float cells) = Some (map of_int (int_values cells))"
    by blast+
  have "exact_sum (map of_int (int_values cells))"
    using assms by (intro exact_sum_ints) (simp add: small_counts_def)
  with a f True show ?thesis
    by (simp add: shown_sum_def sum_list_of_int)
qed

lemma differs_shown:
  assumes "small_counts cells" "\<bar>e\<bar> \<le> 2 ^ 53"
  shows "differs (shown_sum cells) e = Inr (sum_list (int_values cells) \<noteq> e)"
proof -
  have i: "int64 e" using assms(2) by (rule int64_small)
  show ?thesis
  proof (cases "PFloat NaN \<in> set cells")
    case False
    with i show ?thesis by (simp add: shown_sum_def)
  next
    case True
    with i float_of_int_exact[OF assms(2)] show ?thesis by (simp add: shown_sum_def)
  qed
qed

lemma get_column_cells:
  "col \<in> set (columns t) \<Longrightarrow> get_column col t = Inr (as_series (column_cells col t))"
  by (simp add: get_column_def column_cells_def)

lemma check_columns_filter:
  assumes "\<forall>c\<in>set cols. c \<in> set (columns t) \<and> small_counts (column_cells c t)
             \<and> (\<exists>e. totals c = Some e \<and> \<bar>e\<bar> \<le> 2 ^ 53)"
  shows "check_columns t totals cols =
         (case filter (\<lambda>c. column_total c t \<noteq> the (totals c)) cols of
            [] \<Rightarrow> Inr ()
          | c # _ \<Rightarrow> Inl (TableExtractionError
                          (Inconsistent_sum c (shown_sum (column_cells c t)) (the (totals c)))))"
  using assms
proof (induction cols)
  case Nil
  then show ?case by simp
next
  case (Cons c cols)
  then obtain e where e: "totals c = Some e" "\<bar>e\<bar> \<le> 2 ^ 53" by auto
  from Cons.prems have s: "small_counts (column_cells c t)" by simp
  from Cons.prems have "get_column c t = Inr (as_series (column_cells c t))"
    by (simp add: get_column_cells)
  moreover have "series_sum (as_series (column_cells c t)) = Inr (shown_sum (column_cells c t))"
    using s by (rule series_sum_small)
  moreover have "differs (shown_sum (column_cells c t)) e = Inr (column_total c t \<noteq> e)"
    using differs_shown[OF s e(2)] by (simp add: column_total_def)
  ultimately show ?case using Cons e by simp
qed

lemma checked_columns_eq:
  "cartesian_join COLUMN_PREFIXES [''cases'', ''deaths''] = checked_columns"
  by (simp add: cartesian_join_def COLUMN_PREFIXES_def checked_columns_def)

lemma int_values_skip: "int_values (xs @ PFloat NaN # ys) = int_values (xs @ ys)"
  by (induction xs rule: int_values.induct) auto

lemma small_counts_skip:
  "small_counts (xs @ ys) \<Longrightarrow> small_counts (xs @ PFloat NaN # ys)"
  by (simp add: small_counts_def int_values_skip count_cell_def)

lemma totals_first_mismatch:
  assumes "\<forall>c\<in>set checked_columns. c \<in> set (columns t) \<and> small_counts (column_cells c t)
             \<and> (\<exists>e. totals c = Some e \<and> \<bar>e\<bar> \<le> 2 ^ 53)"
  shows "fst (sanity_check_with_totals t totals) =
           (case filter (\<lambda>c. column_total c t \<noteq> the (totals c)) checked_columns of
              [] \<Rightarrow> Inr ()
            | c # _ \<Rightarrow> Inl (TableExtractionError
                            (Inconsistent_sum c (shown_sum (column_cells c t)) (the (totals c)))))"
  unfolding sanity_check_with_totals_def checked_columns_eq fst_conv
  using assms by (rule check_columns_filter)

text \<open>
  C2 (as the code has it). Let the six columns \<open>male_cases\<close>, \<open>male_deaths\<close>,
  \<open>female_cases\<close>, \<open>female_deaths\<close>, \<open>cases\<close> and \<open>deaths\<close> be columns of the table, each
  holding integers or missing markers whose absolute values add up to at most \<open>2 ^ 53\<close>,
  and let the totals give each of them an integer of absolute value at most \<open>2 ^ 53\<close>.
  Then \<^verbatim>\<open>sanity_check_with_totals\<close> raises \<^verbatim>\<open>TableExtractionError\<close> for the first of the
  six columns, in this order, whose sum differs from its total, with the column, the sum
  as \<^verbatim>\<open>Series.sum()\<close> returns it (an integer, or a float when the column has a missing
  cell) and the total in the message; it raises so exactly when some column differs, and
  returns normally exactly when all six sums equal the totals. The table is the same
  after the call.
\<close>

theorem sanity_check_first_mismatch:
  assumes "\<forall>c\<in>set checked_columns. c \<in> set (columns t) \<and> small_counts (column_cells c t)
             \<and> (\<exists>e. totals c = Some e \<and> \<bar>e\<bar> \<le> 2 ^ 53)"
  shows "fst (sanity_check_with_totals t totals) =
           (case filter (\<lambda>c. column_total c t \<noteq> the (totals c)) checked_columns of
              [] \<Rightarrow> Inr ()
            | c # _ \<Rightarrow> Inl (TableExtractionError
                            (Inconsistent_sum c (shown_sum (column_cells c t)) (the (totals c)))))
       \<and> ((\<exists>c\<in>set checked_columns.
              column_total c t \<noteq> the (totals c) \<and>
              fst (sanity_check_with_totals t totals) =
                Inl (TableExtractionError
                       (Inconsistent_sum c (shown_sum (column_cells c t)) (the (totals c)))))
            \<longleftrightarrow> (\<exists>c\<in>set checked_columns. column_total c t \<noteq> the (totals c)))
       \<and> (fst (sanity_check_with_totals t totals) = Inr ()
            \<longleftrightarrow> (\<forall>c\<in>set checked_columns. column_total c t = the (totals c)))
       \<and> snd (sanity_check_with_totals t totals) = t"
proof -
  let ?bad = "filter (\<lambda>c. column_total c t \<noteq> the (totals c)) checked_columns"
  let ?r = "fst (sanity_check_with_totals t totals)"
  have m: "?r =
           (case ?bad of
              [] \<Rightarrow> Inr ()
            | c # _ \<Rightarrow> Inl (TableExtractionError
                            (Inconsistent_sum c (shown_sum (column_cells c t)) (the (totals c)))))"
    using assms by (rule totals_first_mismatch)
  have s: "snd (sanity_check_with_totals t totals) = t"
    by (simp add: sanity_check_with_totals_def)
  show ?thesis
  proof (cases ?bad)
    case Nil
    then have all: "\<forall>c\<in>set checked_columns. column_total c t = the (totals c)"
      by (simp add: filter_empty_conv)
    from m Nil have "?r = Inr ()" by simp
    with all m s show ?thesis by auto
  next
    case (Cons c cs)
    then have "c \<in> set ?bad" by simp
    then have c: "c \<in> set checked_columns" "column_total c t \<noteq> the (totals c)" by simp_all
    from m Cons have r: "?r =
        Inl (TableExtractionError
               (Inconsistent_sum c (shown_sum (column_cells c t)) (the (totals c))))"
      by simp
    from c r m s show ?thesis by auto
  qed
qed

text \<open>The six checked columns of \<open>gappy_table\<close>, and their totals.\<close>

lemma gappy_table_cells:
  "column_cells ''male_cases'' gappy_table = 
     [PInt 1, PInt 1, PInt 1, PInt 1, PInt 1, PInt 1, PInt 1, PInt 1, PInt 1, PInt 1, PFloat NaN]"
  "column_cells ''male_deaths'' gappy_table = 
     [PInt 2, PInt 2, PInt 2, PInt 2, PInt 2, PInt 2, PInt 2, PInt 2, PInt 2, PInt 2, PFloat NaN]"
  "column_cells ''female_cases'' gappy_table = 
     [PInt 3, PInt 3, PInt 3, PInt 3, PInt 3, PInt 3, PInt 3, PInt 3, PInt 3, PInt 3, PFloat NaN]"
  "column_cells ''female_deaths'' gappy_table = 
     [PFloat NaN, PFloat NaN, PFloat NaN, PFloat NaN, PFloat NaN, PFloat NaN, PFloat NaN, PFloat NaN, PFloat NaN, PFloat NaN, PFloat NaN]"
  "column_cells ''cases'' gappy_table = 
     [PInt 100, PInt 100, PInt 100, PInt 100, PInt 100, PInt 100, PInt 100, PInt 100, PInt 100, PInt 100, PFloat NaN]"
  "column_cells ''deaths'' gappy_table = 
     [PInt 2, PInt 2, PInt 2, PInt 2, PInt 2, PInt 2, PInt 2, PInt 2, PInt 2, PInt 2, PFloat NaN]"
  by code_simp+

lemma gappy_table_columns:
  "\<forall>c\<in>set checked_columns. c \<in> set (columns gappy_table)
      \<and> small_counts (column_cells c gappy_table)"
  by code_simp

lemma gappy_table_totals:
  "column_total ''male_cases'' gappy_table = 10"
  "column_total ''male_deaths'' gappy_table = 20"
  "column_total ''female_cases'' gappy_table = 30"
  "column_total ''female_deaths'' gappy_table = 0"
  "column_total ''cases'' gappy_table = 1000"
  "column_total ''deaths'' gappy_table = 20"
  by code_simp+

lemma gappy_totals_lookup:
  "gappy_totals ''male_cases'' = Some 10"
  "gappy_totals ''male_deaths'' = Some 20"
  "gappy_totals ''female_cases'' = Some 30"
  "gappy_totals ''female_deaths'' = Some 0"
  "gappy_totals ''cases'' = Some 1000"
  "gappy_totals ''deaths'' = Some 20"
  by (simp_all add: gappy_totals_def)

lemma gappy_cases_shown:
  "PFloat NaN \<in> set (column_cells ''cases'' gappy_table)"
  "shown_sum (column_cells ''cases'' gappy_table) = PFloat (Fin 1000)"
  by (simp_all add: shown_sum_def gappy_table_cells)

theorem sanity_check_first_mismatch_witness:
  "fst (sanity_check_with_totals gappy_table gappy_totals) = Inr ()
   \<and> snd (sanity_check_with_totals gappy_table gappy_totals) = gappy_table
   \<and> fst (sanity_check_with_totals gappy_table (gappy_totals(''cases'' \<mapsto> 999))) =
       Inl (TableExtractionError (Inconsistent_sum ''cases'' (PFloat (Fin 1000)) 999))"
proof -
  let ?wrong = "gappy_totals(''cases'' \<mapsto> 999)"
  have h0: "\<forall>c\<in>set checked_columns. c \<in> set (columns gappy_table)
             \<and> small_counts (column_cells c gappy_table)
             \<and> (\<exists>e. gappy_totals c = Some e \<and> \<bar>e\<bar> \<le> 2 ^ 53)"
    using gappy_table_columns by (simp add: checked_columns_def gappy_totals_lookup)
  have h: "\<forall>c\<in>set checked_columns. c \<in> set (columns gappy_table)
             \<and> small_counts (column_cells c gappy_table)
             \<and> (\<exists>e. ?wrong c = Some e \<and> \<bar>e\<bar> \<le> 2 ^ 53)"
    using gappy_table_columns by (simp add: checked_columns_def gappy_totals_lookup)
  have f: "filter (\<lambda>c. column_total c gappy_table \<noteq> the (gappy_totals c)) checked_columns = []"
    by (simp add: checked_columns_def gappy_totals_lookup gappy_table_totals)
  have g: "filter (\<lambda>c. column_total c gappy_table \<noteq> the (?wrong c)) checked_columns = [''cases'']"
    by (simp add: checked_columns_def gappy_totals_lookup gappy_table_totals)
  have "fst (sanity_check_with_totals gappy_table gappy_totals) =
          (case filter (\<lambda>c. column_total c gappy_table \<noteq> the (gappy_totals c)) checked_columns of
              [] \<Rightarrow> Inr ()
            | c # _ \<Rightarrow> Inl (TableExtractionError
                            (Inconsistent_sum c (shown_sum (column_cells c gappy_table)) (the (gappy_totals c)))))"
    using sanity_check_first_mismatch[OF h0] by (rule conjunct1)
  then have a: "fst (sanity_check_with_totals gappy_table gappy_totals) = Inr ()"
    by (simp only: f list.case)
  have u: "snd (sanity_check_with_totals gappy_table gappy_totals) = gappy_table"
    using sanity_check_first_mismatch[OF h0] by blast
  have "fst (sanity_check_with_totals gappy_table ?wrong) =
          (case filter (\<lambda>c. column_total c gappy_table \<noteq> the (?wrong c)) checked_columns of
              [] \<Rightarrow> Inr ()
            | c # _ \<Rightarrow> Inl (TableExtractionError
                            (Inconsistent_sum c (shown_sum (column_cells c gappy_table)) (the (?wrong c)))))"
    using sanity_check_first_mismatch[OF h] by (rule conjunct1)
  then have "fst (sanity_check_with_totals gappy_table ?wrong) =
      Inl (TableExtractionError
             (Inconsistent_sum ''cases'' (shown_sum (column_cells ''cases'' gappy_table)) (the (?wrong ''cases''))))"
    by (simp only: g list.case)
  then have b: "fst (sanity_check_with_totals gappy_table ?wrong) =
       Inl (TableExtractionError (Inconsistent_sum ''cases'' (PFloat (Fin 1000)) 999))"
    by (simp add: gappy_cases_shown)
  from a u b show ?thesis by simp
qed

text \<open>
  Beyond \<open>2 ^ 53\<close> a column with a missing cell holds rounded values: \<open>2 ^ 53 + 1\<close> is
  stored as \<open>2 ^ 53\<close>.
\<close>

lemma float_of_big: "float_of_int 9007199254740993 = Fin 9007199254740992"
  by (simp add: float_of_int_def round_double_def round_half_even_def bitlen.simps Let_def)

lemma float_of_big_total: "float_of_int 9007199254740992 = Fin 9007199254740992"
  using float_of_int_exact[of 9007199254740992] by simp

lemma big_table_cells:
  "column_cells ''cases'' big_table = 
     [PInt 9007199254740993, PFloat NaN, PFloat NaN, PFloat NaN, PFloat NaN, PFloat NaN, PFloat NaN, PFloat NaN, PFloat NaN, PFloat NaN, PFloat NaN]"
  by code_simp

lemma big_table_columns:
  "\<forall>c\<in>set [''male_cases'', ''male_deaths'', ''female_cases'', ''female_deaths'', ''deaths''].
      c \<in> set (columns big_table) \<and> small_counts (column_cells c big_table)
      \<and> big_totals c = Some (column_total c big_table)"
  by code_simp

lemma big_table_cases_column: "''cases'' \<in> set (columns big_table)"
  by code_simp

lemma big_cases_sum:
  "series_sum (as_series (column_cells ''cases'' big_table)) = Inr (PFloat (Fin 9007199254740992))"
  by (simp add: big_table_cells as_series_def int64_def float_of_big exact_sum_def)

lemma check_column_passes:
  assumes "c \<in> set (columns t)" "small_counts (column_cells c t)"
    "totals c = Some (column_total c t)"
  shows "check_columns t totals (c # cols) = check_columns t totals cols"
proof -
  have b: "\<bar>column_total c t\<bar> \<le> 2 ^ 53"
    unfolding column_total_def using assms(2) by (rule small_counts_total)
  have "get_column c t = Inr (as_series (column_cells c t))"
    using assms(1) by (rule get_column_cells)
  moreover have "series_sum (as_series (column_cells c t)) = Inr (shown_sum (column_cells c t))"
    using assms(2) by (rule series_sum_small)
  moreover have "differs (shown_sum (column_cells c t)) (column_total c t) = Inr False"
    using differs_shown[OF assms(2) b] by (simp add: column_total_def)
  ultimately show ?thesis using assms(3) by simp
qed

text \<open>
  C2 (as stated) has the check raise whenever the sum of a column differs from its total,
  for every table. The \<open>cases\<close> column of \<open>big_table\<close> holds \<open>2 ^ 53 + 1\<close> and ten missing
  cells, so it is a column of floats and its sum is \<open>2 ^ 53\<close>: against the total \<open>2 ^ 53\<close>
  the check returns normally, though the integers of the column add up to one more.
\<close>

theorem big_counts_counterexample:
  "column_total ''cases'' big_table = 9007199254740993
   \<and> big_totals ''cases'' = Some 9007199254740992
   \<and> sanity_check_with_totals big_table big_totals = (Inr (), big_table)"
proof -
  have t: "column_total ''cases'' big_table = 9007199254740993"
    by (simp add: column_total_def big_table_cells)
  have e: "big_totals ''cases'' = Some 9007199254740992"
    by (simp add: big_totals_def)
  have d: "check_columns big_table big_totals [''deaths''] = Inr ()"
    using check_column_passes[of "''deaths''" big_table big_totals "[]"] big_table_columns
    by simp
  have "differs (PFloat (Fin 9007199254740992)) 9007199254740992 = Inr False"
    by (simp add: int64_def float_of_big_total)
  then have "check_columns big_table big_totals [''cases'', ''deaths''] =
        check_columns big_table big_totals [''deaths'']"
    by (simp add: get_column_cells[OF big_table_cases_column] big_cases_sum e
        del: differs.simps)
  with d have c: "check_columns big_table big_totals [''cases'', ''deaths''] = Inr ()"
    by (simp only:)
  have "check_columns big_table big_totals checked_columns = Inr ()"
    unfolding checked_columns_def using big_table_columns c
    by (simp add: check_column_passes del: check_columns.simps)
  then have "sanity_check_with_totals big_table big_totals = (Inr (), big_table)"
    by (simp add: sanity_check_with_totals_def checked_columns_eq)
  with t e show ?thesis by simp
qed

text \<open>
  C10 (as the code has it). \<^verbatim>\<open>Series.sum()\<close> skips missing markers. On a column of
  integers and missing markers whose absolute values add up to at most \<open>2 ^ 53\<close> the sum
  is the sum of the integers, as a float when a missing cell is there; a missing cell
  put anywhere into such a column leaves the value of the sum as it was. So a table with
  missing cells in the six checked columns passes the check when the integers that are
  there add up to the totals.
\<close>

theorem missing_cells_skipped:
  "(small_counts cells \<longrightarrow> series_sum (as_series cells) = Inr (shown_sum cells))
   \<and> (small_counts (xs @ ys) \<longrightarrow>
        series_sum (as_series (xs @ PFloat NaN # ys)) =
          Inr (PFloat (Fin (of_int (sum_list (int_values (xs @ ys)))))))
   \<and> ((\<forall>c\<in>set checked_columns. c \<in> set (columns t) \<and> small_counts (column_cells c t)
          \<and> totals c = Some (column_total c t))
        \<longrightarrow> fst (sanity_check_with_totals t totals) = Inr ())"
proof (intro conjI impI)
  show "series_sum (as_series cells) = Inr (shown_sum cells)" if "small_counts cells"
    using that by (rule series_sum_small)
  show "series_sum (as_series (xs @ PFloat NaN # ys)) =
          Inr (PFloat (Fin (of_int (sum_list (int_values (xs @ ys))))))"
    if "small_counts (xs @ ys)"
  proof -
    from that have "small_counts (xs @ PFloat NaN # ys)" by (rule small_counts_skip)
    then have "series_sum (as_series (xs @ PFloat NaN # ys)) = Inr (shown_sum (xs @ PFloat NaN # ys))"
      by (rule series_sum_small)
    then show ?thesis by (simp add: shown_sum_def int_values_skip)
  qed
  assume h: "\<forall>c\<in>set checked_columns. c \<in> set (columns t) \<and> small_counts (column_cells c t)
          \<and> totals c = Some (column_total c t)"
  have "\<bar>column_total c t\<bar> \<le> 2 ^ 53" if "c \<in> set checked_columns" for c
    unfolding column_total_def using h that by (intro small_counts_total) blast
  with h have "\<forall>c\<in>set checked_columns. c \<in> set (columns t) \<and> small_counts (column_cells c t)
             \<and> (\<exists>e. totals c = Some e \<and> \<bar>e\<bar> \<le> 2 ^ 53)" by auto
  then have "check_columns t totals checked_columns =
         (case filter (\<lambda>c. column_total c t \<noteq> the (totals c)) checked_columns of
            [] \<Rightarrow> Inr ()
          | c # _ \<Rightarrow> Inl (TableExtractionError
                          (Inconsistent_sum c (shown_sum (column_cells c t)) (the (totals c)))))"
    by (rule check_columns_filter)
  moreover have "filter (\<lambda>c. column_total c t \<noteq> the (totals c)) checked_columns = []"
    using h by (simp add: filter_empty_conv)
  ultimately show "fst (sanity_check_with_totals t totals) = Inr ()"
    by (simp add: sanity_check_with_totals_def checked_columns_eq)
qed

theorem missing_cells_skipped_witness:
  "PFloat NaN \<in> set (column_cells ''cases'' gappy_table)
   \<and> series_sum (as_series (column_cells ''cases'' gappy_table)) = Inr (PFloat (Fin 1000))
   \<and> series_sum (as_series ([PInt 1] @ PFloat NaN # [PInt 2])) = Inr (PFloat (Fin 3))
   \<and> fst (sanity_check_with_totals gappy_table gappy_totals) = Inr ()"
proof -
  have n: "PFloat NaN \<in> set (column_cells ''cases'' gappy_table)"
    by (rule gappy_cases_shown)
  have cc: "small_counts (column_cells ''cases'' gappy_table)"
    using gappy_table_columns by (simp add: checked_columns_def)
  have s: "series_sum (as_series (column_cells ''cases'' gappy_table)) = Inr (PFloat (Fin 1000))"
    using missing_cells_skipped[of "column_cells ''cases'' gappy_table" "[]" "[]" gappy_table gappy_totals]
      cc by (simp add: gappy_cases_shown)
  have h: "\<forall>c\<in>set checked_columns. c \<in> set (columns gappy_table)
             \<and> small_counts (column_cells c gappy_table)
             \<and> gappy_totals c = Some (column_total c gappy_table)"
    using gappy_table_columns
    by (simp add: checked_columns_def gappy_totals_lookup gappy_table_totals)
  have p: "fst (sanity_check_with_totals gappy_table gappy_totals) = Inr ()"
    using missing_cells_skipped[of "[]" "[]" "[]" gappy_table gappy_totals] h by blast
  have sm: "small_counts ([PInt 1] @ [PInt 2])"
    by (simp add: small_counts_def count_cell_def)
  have k: "series_sum (as_series ([PInt 1] @ PFloat NaN # [PInt 2])) = Inr (PFloat (Fin 3))"
    using missing_cells_skipped[of "[]" "[PInt 1]" "[PInt 2]" gappy_table gappy_totals] sm
    by simp
  from n s k p show ?thesis by simp
qed

text \<open>
  C10 (as stated) has a missing cell add nothing to the sum, whatever the column. The
  missing cell makes the column a column of floats: next to \<open>2 ^ 53 + 1\<close> it changes the
  sum to \<open>2 ^ 53\<close>.
\<close>

theorem rounded_sum_counterexample:
  "series_sum (as_series [PInt 9007199254740993]) = Inr (PInt 9007199254740993)
   \<and> series_sum (as_series [PInt 9007199254740993, PFloat NaN]) = Inr (PFloat (Fin 9007199254740992))"
  by (simp add: as_series_def int64_def wrap64_def float_of_big exact_sum_def)

section \<open>The report date and time\<close>


















section \<open>Locating the page of the table\<close>

lemma find_loop_filter:
  "\<forall>i\<in>set is. i < length pdf \<Longrightarrow>
   find_loop pdf is =
     (case filter (caption_on pdf) is of
        [] \<Rightarrow> not_found
      | i # _ \<Rightarrow> Inr (page_text pdf i, i))"
  by (induction "is") (auto simp: extract_text_def caption_on_def page_text_def not_found_def)

lemma find_loop_first_page:
  "\<forall>i\<in>set is. 1 \<le> i \<Longrightarrow> find_loop (p # rest) is = find_loop (q # rest) is"
proof (induction "is")
  case Nil
  then show ?case by simp
next
  case (Cons i "is")
  then have "1 \<le> i" by simp
  then have "extract_text (p # rest) i = extract_text (q # rest) i"
    by (cases i) (auto simp: extract_text_def)
  with Cons show ?case by (auto split: sum.splits)
qed

lemma upt_split_prefix:
  assumes "[a..<n] = us @ i # vs"
  shows "us = [a..<i]"
proof -
  have len: "length us < length [a..<n]" using assms by simp
  then have "[a..<n] ! length us = a + length us" by simp
  moreover have "[a..<n] ! length us = i" using assms by simp
  ultimately have i: "i = a + length us" by simp
  have "us = take (length us) [a..<n]" using assms by simp
  also have "\<dots> = [a..<a + length us]" using len by (simp add: take_upt)
  finally show ?thesis using i by simp
qed

lemma filter_upt_first:
  assumes "filter P [a..<n] = i # r"
  shows "a \<le> i \<and> i < n \<and> P i \<and> (\<forall>j. a \<le> j \<and> j < i \<longrightarrow> \<not> P j)"
proof -
  from assms obtain us vs where s: "[a..<n] = us @ i # vs" and no: "\<forall>u\<in>set us. \<not> P u" and p: "P i"
    by (auto simp: filter_eq_Cons_iff)
  have "i \<in> set [a..<n]" unfolding s by simp
  then have r: "a \<le> i" "i < n" by simp_all
  from s have "us = [a..<i]" by (rule upt_split_prefix)
  with no have "\<forall>j. a \<le> j \<and> j < i \<longrightarrow> \<not> P j" by auto
  with r p show ?thesis by blast
qed

text \<open>
  C3. \<^verbatim>\<open>find_table_page\<close> returns the first page among the pages \<open>1, ..., N - 1\<close>, in
  this order, on whose text the caption pattern is found, with the index of that page; the
  text is the one \<^verbatim>\<open>extract_text\<close> gives, newlines removed. Its result is the same when
  page 0 is replaced by any other page, so page 0 is never looked at. It raises
  \<^verbatim>\<open>TableExtractionError\<close> exactly when none of the pages \<open>1, ..., N - 1\<close> has the caption,
  whatever page 0 holds.
\<close>

theorem find_table_page_scan:
  "find_table_page pdf =
     (case filter (caption_on pdf) [1..<length pdf] of
        [] \<Rightarrow> not_found
      | i # _ \<Rightarrow> Inr (page_text pdf i, i))
   \<and> find_table_page (p # rest) = find_table_page (q # rest)
   \<and> ((\<forall>i. 1 \<le> i \<and> i < length pdf \<longrightarrow> \<not> caption_on pdf i) \<longleftrightarrow> find_table_page pdf = not_found)
   \<and> (find_table_page pdf = Inr (found, i) \<longleftrightarrow>
        1 \<le> i \<and> i < length pdf \<and> caption_on pdf i \<and> found = page_text pdf i
        \<and> (\<forall>j. 1 \<le> j \<and> j < i \<longrightarrow> \<not> caption_on pdf j))"
proof -
  let ?hits = "filter (caption_on pdf) [1..<length pdf]"
  have m: "find_table_page pdf =
     (case ?hits of [] \<Rightarrow> not_found | i # _ \<Rightarrow> Inr (page_text pdf i, i))"
    unfolding find_table_page_def by (rule find_loop_filter) simp
  have "find_loop (p # rest) [1..<Suc (length rest)] = find_loop (q # rest) [1..<Suc (length rest)]"
    by (rule find_loop_first_page) (simp del: upt_Suc)
  then have ind: "find_table_page (p # rest) = find_table_page (q # rest)"
    by (simp add: find_table_page_def del: upt_Suc)
  have none: "(\<forall>i. 1 \<le> i \<and> i < length pdf \<longrightarrow> \<not> caption_on pdf i) \<longleftrightarrow> find_table_page pdf = not_found"
  proof (cases ?hits)
    case Nil
    then have "\<forall>i. 1 \<le> i \<and> i < length pdf \<longrightarrow> \<not> caption_on pdf i"
      by (auto simp: filter_empty_conv)
    with m Nil show ?thesis by simp
  next
    case (Cons k ks)
    from filter_upt_first[OF Cons] have "1 \<le> k \<and> k < length pdf \<and> caption_on pdf k" by blast
    moreover from m Cons have "find_table_page pdf \<noteq> not_found" by (simp add: not_found_def)
    ultimately show ?thesis by blast
  qed
  have some: "find_table_page pdf = Inr (found, i) \<longleftrightarrow>
        1 \<le> i \<and> i < length pdf \<and> caption_on pdf i \<and> found = page_text pdf i
        \<and> (\<forall>j. 1 \<le> j \<and> j < i \<longrightarrow> \<not> caption_on pdf j)"
  proof (cases ?hits)
    case Nil
    then have "\<forall>i. 1 \<le> i \<and> i < length pdf \<longrightarrow> \<not> caption_on pdf i"
      by (auto simp: filter_empty_conv)
    moreover from m Nil have "find_table_page pdf \<noteq> Inr (found, i)" by (simp add: not_found_def)
    ultimately show ?thesis by blast
  next
    case (Cons k ks)
    from filter_upt_first[OF Cons]
    have k: "1 \<le> k" "k < length pdf" "caption_on pdf k" "\<forall>j. 1 \<le> j \<and> j < k \<longrightarrow> \<not> caption_on pdf j"
      by blast+
    from m Cons have r: "find_table_page pdf = Inr (page_text pdf k, k)" by simp
    show ?thesis
    proof
      assume "find_table_page pdf = Inr (found, i)"
      with r have "i = k" "found = page_text pdf k" by simp_all
      with k show "1 \<le> i \<and> i < length pdf \<and> caption_on pdf i \<and> found = page_text pdf i
        \<and> (\<forall>j. 1 \<le> j \<and> j < i \<longrightarrow> \<not> caption_on pdf j)" by simp
    next
      assume h: "1 \<le> i \<and> i < length pdf \<and> caption_on pdf i \<and> found = page_text pdf i
        \<and> (\<forall>j. 1 \<le> j \<and> j < i \<longrightarrow> \<not> caption_on pdf j)"
      have "\<not> k < i" using h k by blast
      moreover have "\<not> i < k" using h k by blast
      ultimately have "i = k" by simp
      with h r show "find_table_page pdf = Inr (found, i)" by simp
    qed
  qed
  from m ind none some show ?thesis by blast
qed

lemma example_pages:
  "search TABLE_CAPTION_PATTERN (replace [CHR 0x0A] [] caption_page) \<noteq> None"
  "search TABLE_CAPTION_PATTERN (replace [CHR 0x0A] [] other_page) = None"
  by (simp_all add: caption_page_def other_page_def TABLE_CAPTION_PATTERN_def lit_def
      read_char_def same_letter_def in_class_def lower_def char_of_eq_iff)

theorem find_table_page_scan_witness:
  "find_table_page [caption_page, other_page] = not_found
   \<and> find_table_page [other_page, other_page, caption_page, caption_page] =
       Inr (replace [CHR 0x0A] [] caption_page, 2)"
proof -
  let ?a = "[caption_page, other_page]"
  let ?b = "[other_page, other_page, caption_page, caption_page]"
  let ?T = "replace [CHR 0x0A] [] caption_page"
  have na: "\<forall>i. 1 \<le> i \<and> i < length ?a \<longrightarrow> \<not> caption_on ?a i"
  proof (intro allI impI)
    fix i assume "1 \<le> i \<and> i < length ?a"
    then have "i = 1" by simp
    then show "\<not> caption_on ?a i"
      unfolding caption_on_def page_text_def using example_pages(2) by simp
  qed
  have "(\<forall>i. 1 \<le> i \<and> i < length ?a \<longrightarrow> \<not> caption_on ?a i) \<longleftrightarrow> find_table_page ?a = not_found"
    using find_table_page_scan[where pdf = "?a" and p = "[]" and q = "[]" and rest = "[]"
        and found = "[]" and i = 0]
    by blast
  with na have a: "find_table_page ?a = not_found" by blast
  have nb: "\<forall>j. 1 \<le> j \<and> j < 2 \<longrightarrow> \<not> caption_on ?b j"
  proof (intro allI impI)
    fix j :: nat assume "1 \<le> j \<and> j < 2"
    then have "j = 1" by simp
    then show "\<not> caption_on ?b j"
      unfolding caption_on_def page_text_def using example_pages(2) by simp
  qed
  have c: "caption_on ?b 2"
    unfolding caption_on_def page_text_def using example_pages(1) by simp
  have t: "?T = page_text ?b 2"
    by (simp add: page_text_def)
  have r: "(1::nat) \<le> 2" "2 < length ?b" by simp_all
  have "find_table_page ?b = Inr (?T, 2) \<longleftrightarrow>
        1 \<le> (2::nat) \<and> 2 < length ?b \<and> caption_on ?b 2 \<and> ?T = page_text ?b 2
        \<and> (\<forall>j. 1 \<le> j \<and> j < 2 \<longrightarrow> \<not> caption_on ?b j)"
    using find_table_page_scan[where pdf = "?b" and p = "[]" and q = "[]" and rest = "[]"
        and found = "?T" and i = 2]
    by blast
  with nb c t r have b: "find_table_page ?b = Inr (?T, 2)" by blast
  from a b show ?thesis by simp
qed

section \<open>Building the rows\<close>

lemma num_columns_16: "num_columns = 16"
  by (simp add: num_columns_def COLUMNS_def cartesian_join_def COLUMN_PREFIXES_def COLUMN_FIELDS_def)

lemma COLUMN_CONVERTERS_list:
  "COLUMN_CONVERTERS =
     [py_str, to_int, to_float, to_int, to_float, to_float,
      to_int, to_float, to_int, to_float, to_float,
      to_int, to_float, to_int, to_float, to_float]"
  by (simp add: COLUMN_CONVERTERS_def numeral_3_eq_3)

lemma length_COLUMN_CONVERTERS: "length COLUMN_CONVERTERS = 16"
  by (simp add: COLUMN_CONVERTERS_list)

lemma to_int_str_error: "to_int (PStr s) = Inl e \<Longrightarrow> e = ValueError"
  by (auto simp: to_int_def split: if_splits option.splits)

lemma to_float_str_error: "to_float (PStr s) = Inl e \<Longrightarrow> e = ValueError"
  by (auto simp: to_float_def split: if_splits option.splits)

lemma converter_str_error:
  assumes "c \<in> set COLUMN_CONVERTERS" "c (PStr s) = Inl e"
  shows "e = ValueError"
proof -
  from assms(1) have "c = py_str \<or> c = to_int \<or> c = to_float"
    by (auto simp: COLUMN_CONVERTERS_list)
  with assms(2) show ?thesis
    by (auto dest: to_int_str_error to_float_str_error)
qed

lemma convert_each_cases:
  assumes "\<forall>(v, c)\<in>set xs. \<forall>e. c v = Inl e \<longrightarrow> e = ValueError"
  shows "convert_each xs =
           (if \<forall>(v, c)\<in>set xs. \<not> isl (c v) then Inr (map (\<lambda>(v, c). projr (c v)) xs)
            else Inl ValueError)"
  using assms
proof (induction xs rule: convert_each.induct)
  case 1
  then show ?case by simp
next
  case (2 v conv rest)
  show ?case
  proof (cases "conv v")
    case (Inl e)
    with 2(2) have "e = ValueError" by simp
    with Inl show ?thesis by simp
  next
    case (Inr x)
    with 2 show ?thesis by (auto split: sum.splits)
  qed
qed


lemma slice_length: "length (slice a (a + n) xs) = min (a + n) (length xs) - a"
  by (simp add: slice_def)

lemma slice_nth: "a + n \<le> length xs \<Longrightarrow> k < n \<Longrightarrow> slice a (a + n) xs ! k = xs ! (a + k)"
  by (simp add: slice_def)

lemma convert_values_row:
  "convert_values (map PStr (slice (i * num_columns) (i * num_columns + num_columns) tokens))
      COLUMN_CONVERTERS =
     (if row_ok tokens i
      then Inr (map (\<lambda>(v, c). projr (c v))
                  (zip (map PStr (slice (i * num_columns) (i * num_columns + num_columns) tokens))
                     COLUMN_CONVERTERS))
      else Inl ValueError)"
proof -
  let ?a = "i * num_columns"
  let ?vs = "map PStr (slice ?a (?a + num_columns) tokens)"
  show ?thesis
  proof (cases "?a + num_columns \<le> length tokens")
    case False
    then have "length ?vs \<noteq> length COLUMN_CONVERTERS"
      by (simp add: slice_length length_COLUMN_CONVERTERS num_columns_16)
    moreover from False have "\<not> row_ok tokens i" by (simp add: row_ok_def)
    ultimately show ?thesis by (simp add: convert_values_def)
  next
    case True
    then have len: "length ?vs = length COLUMN_CONVERTERS"
      by (simp add: slice_length length_COLUMN_CONVERTERS num_columns_16)
    have err: "\<forall>(v, c)\<in>set (zip ?vs COLUMN_CONVERTERS). \<forall>e. c v = Inl e \<longrightarrow> e = ValueError"
    proof (clarify)
      fix v c e assume m: "(v, c) \<in> set (zip ?vs COLUMN_CONVERTERS)" and e: "c v = Inl e"
      from m have "v \<in> set ?vs" "c \<in> set COLUMN_CONVERTERS" by (auto dest: set_zip_leftD set_zip_rightD)
      then obtain s where "v = PStr s" by auto
      with e \<open>c \<in> set COLUMN_CONVERTERS\<close> show "e = ValueError"
        by (auto dest: converter_str_error)
    qed
    have "(\<forall>(v, c)\<in>set (zip ?vs COLUMN_CONVERTERS). \<not> isl (c v)) \<longleftrightarrow>
          (\<forall>k<num_columns. convertible (?a + k) (tokens ! (?a + k)))"
    proof -
      have "(\<forall>(v, c)\<in>set (zip ?vs COLUMN_CONVERTERS). \<not> isl (c v)) \<longleftrightarrow>
            (\<forall>k<num_columns. \<not> isl ((COLUMN_CONVERTERS ! k) (?vs ! k)))"
      proof
        assume h: "\<forall>(v, c)\<in>set (zip ?vs COLUMN_CONVERTERS). \<not> isl (c v)"
        show "\<forall>k<num_columns. \<not> isl ((COLUMN_CONVERTERS ! k) (?vs ! k))"
        proof (intro allI impI)
          fix k assume "k < num_columns"
          then have "k < length (zip ?vs COLUMN_CONVERTERS)"
            using len by (simp add: length_COLUMN_CONVERTERS num_columns_16)
          then have "zip ?vs COLUMN_CONVERTERS ! k \<in> set (zip ?vs COLUMN_CONVERTERS)"
            by (rule nth_mem)
          moreover have "zip ?vs COLUMN_CONVERTERS ! k = (?vs ! k, COLUMN_CONVERTERS ! k)"
            using \<open>k < length (zip ?vs COLUMN_CONVERTERS)\<close> by simp
          ultimately have "(?vs ! k, COLUMN_CONVERTERS ! k) \<in> set (zip ?vs COLUMN_CONVERTERS)"
            by simp
          with h show "\<not> isl ((COLUMN_CONVERTERS ! k) (?vs ! k))" by blast
        qed
      next
        assume h: "\<forall>k<num_columns. \<not> isl ((COLUMN_CONVERTERS ! k) (?vs ! k))"
        show "\<forall>(v, c)\<in>set (zip ?vs COLUMN_CONVERTERS). \<not> isl (c v)"
        proof (clarify)
          fix v c assume "(v, c) \<in> set (zip ?vs COLUMN_CONVERTERS)" and i: "isl (c v)"
          then obtain n where n: "?vs ! n = v" "COLUMN_CONVERTERS ! n = c" "n < length COLUMN_CONVERTERS"
            by (auto simp: in_set_zip)
          then have "n < num_columns" by (simp add: length_COLUMN_CONVERTERS num_columns_16)
          with h have "\<not> isl ((COLUMN_CONVERTERS ! n) (?vs ! n))" by blast
          with n i show False by simp
        qed
      qed
      also have "\<dots> \<longleftrightarrow> (\<forall>k<num_columns. convertible (?a + k) (tokens ! (?a + k)))"
      proof -
        have "?vs ! k = PStr (tokens ! (?a + k))" if "k < num_columns" for k
          using that True len by (simp add: slice_nth slice_length)
        moreover have "(?a + k) mod num_columns = k" if "k < num_columns" for k
          using that by simp
        ultimately show ?thesis by (simp add: convertible_def)
      qed
      finally show ?thesis .
    qed
    with True have "(\<forall>(v, c)\<in>set (zip ?vs COLUMN_CONVERTERS). \<not> isl (c v)) \<longleftrightarrow> row_ok tokens i"
      by (simp add: row_ok_def)
    with convert_each_cases[OF err] len show ?thesis
      by (simp add: convert_values_def)
  qed
qed

lemma rows_loop_ok:
  "\<forall>i\<in>set is. row_ok tokens i \<Longrightarrow>
   \<exists>rows. rows_loop date tokens is = Inr rows \<and> length rows = length is"
proof (induction "is")
  case Nil
  then show ?case by simp
next
  case (Cons i "is")
  then obtain rows where "rows_loop date tokens is = Inr rows" "length rows = length is" by auto
  moreover from Cons.prems have "row_ok tokens i" by simp
  ultimately show ?case by (simp add: convert_values_row Let_def)
qed

lemma rows_loop_bad:
  "\<not> (\<forall>i\<in>set is. row_ok tokens i) \<Longrightarrow> rows_loop date tokens is = Inl ValueError"
proof (induction "is")
  case Nil
  then show ?case by simp
next
  case (Cons i "is")
  show ?case
  proof (cases "row_ok tokens i")
    case False
    then show ?thesis by (simp add: convert_values_row Let_def)
  next
    case True
    with Cons.prems have "\<not> (\<forall>i\<in>set is. row_ok tokens i)" by simp
    then have "rows_loop date tokens is = Inl ValueError" by (rule Cons.IH)
    with True show ?thesis by (simp add: convert_values_row Let_def)
  qed
qed

lemma rows_loop_cong_slices:
  "\<forall>i\<in>set is. slice (i * num_columns) (i * num_columns + num_columns) t1
                = slice (i * num_columns) (i * num_columns + num_columns) t2 \<Longrightarrow>
   rows_loop date t1 is = rows_loop date t2 is"
  by (induction "is") (simp_all add: Let_def cong: sum.case_cong)

lemma all_rows_ok_iff:
  "(\<forall>i\<in>set [0..<num_rows]. row_ok tokens i) \<longleftrightarrow>
     176 \<le> length tokens \<and> (\<forall>j<176. convertible j (tokens ! j))"
proof
  assume h: "\<forall>i\<in>set [0..<num_rows]. row_ok tokens i"
  then have "row_ok tokens 10" by (simp add: num_rows_def)
  then have len: "176 \<le> length tokens" by (simp add: row_ok_def num_columns_16)
  have "convertible j (tokens ! j)" if "j < 176" for j
  proof -
    from that have "j div 16 < 11" by simp
    with h have "row_ok tokens (j div 16)" by (simp add: num_rows_def)
    moreover have "j mod 16 < 16" by simp
    ultimately have "convertible (j div 16 * 16 + j mod 16) (tokens ! (j div 16 * 16 + j mod 16))"
      unfolding row_ok_def num_columns_16 by blast
    then show ?thesis by simp
  qed
  with len show "176 \<le> length tokens \<and> (\<forall>j<176. convertible j (tokens ! j))" by blast
next
  assume h: "176 \<le> length tokens \<and> (\<forall>j<176. convertible j (tokens ! j))"
  show "\<forall>i\<in>set [0..<num_rows]. row_ok tokens i"
  proof
    fix i assume "i \<in> set [0..<num_rows]"
    then have i: "i < 11" by (simp add: num_rows_def)
    then have "i * 16 + 16 \<le> length tokens" using h by simp
    moreover have "convertible (i * 16 + k) (tokens ! (i * 16 + k))" if "k < 16" for k
    proof -
      from i that have "i * 16 + k < 176" by simp
      with h show ?thesis by blast
    qed
    ultimately show "row_ok tokens i" by (simp add: row_ok_def num_columns_16)
  qed
qed

text \<open>
  C1 (as the code has it). The loop reads the tokens \<open>0, ..., 175\<close> in eleven slices of
  sixteen and converts each token with the converter of its column. It raises
  \<^verbatim>\<open>ValueError\<close> exactly when there are fewer than 176 tokens or one of the first 176
  tokens is not convertible; otherwise it yields eleven rows. Tokens after the first 176
  are never read: the result is that of the first 176 tokens alone.
\<close>

theorem build_rows_malformed:
  "(build_rows date tokens = Inl ValueError \<longleftrightarrow>
      length tokens < 176 \<or> (\<exists>i<176. \<not> convertible i (tokens ! i)))
   \<and> ((\<exists>rows. build_rows date tokens = Inr rows \<and> length rows = 11) \<longleftrightarrow>
      176 \<le> length tokens \<and> (\<forall>i<176. convertible i (tokens ! i)))
   \<and> build_rows date tokens = build_rows date (take 176 tokens)"
proof -
  let ?ok = "176 \<le> length tokens \<and> (\<forall>i<176. convertible i (tokens ! i))"
  have good: "\<exists>rows. build_rows date tokens = Inr rows \<and> length rows = 11" if ?ok
  proof -
    from that have "\<forall>i\<in>set [0..<num_rows]. row_ok tokens i"
      using all_rows_ok_iff[of tokens] by blast
    from rows_loop_ok[OF this, of date] show ?thesis
      by (simp add: build_rows_def num_rows_def)
  qed
  have bad: "build_rows date tokens = Inl ValueError" if "\<not> ?ok"
  proof -
    from that have "\<not> (\<forall>i\<in>set [0..<num_rows]. row_ok tokens i)"
      using all_rows_ok_iff[of tokens] by blast
    then show ?thesis unfolding build_rows_def by (rule rows_loop_bad)
  qed
  have cut: "build_rows date tokens = build_rows date (take 176 tokens)"
    unfolding build_rows_def
  proof (rule rows_loop_cong_slices, rule ballI)
    fix i assume "i \<in> set [0..<num_rows]"
    then have "i * 16 + 16 \<le> 176" by (simp add: num_rows_def)
    then show "slice (i * num_columns) (i * num_columns + num_columns) tokens
             = slice (i * num_columns) (i * num_columns + num_columns) (take 176 tokens)"
      by (simp add: slice_def num_columns_16 min_def)
  qed
  have a: "build_rows date tokens = Inl ValueError \<longleftrightarrow> \<not> ?ok"
  proof
    assume e: "build_rows date tokens = Inl ValueError"
    show "\<not> ?ok"
    proof
      assume ?ok
      from good[OF this] obtain rows where "build_rows date tokens = Inr rows" by blast
      with e show False by simp
    qed
  next
    assume "\<not> ?ok"
    then show "build_rows date tokens = Inl ValueError" by (rule bad)
  qed
  have b: "(\<exists>rows. build_rows date tokens = Inr rows \<and> length rows = 11) \<longleftrightarrow> ?ok"
  proof
    assume "\<exists>rows. build_rows date tokens = Inr rows \<and> length rows = 11"
    then obtain rows where r: "build_rows date tokens = Inr rows" by blast
    show ?ok
    proof (rule ccontr)
      assume "\<not> ?ok"
      then have "build_rows date tokens = Inl ValueError" by (rule bad)
      with r show False by simp
    qed
  next
    assume ?ok
    then show "\<exists>rows. build_rows date tokens = Inr rows \<and> length rows = 11" by (rule good)
  qed
  have c: "\<not> ?ok \<longleftrightarrow> length tokens < 176 \<or> (\<exists>i<176. \<not> convertible i (tokens ! i))"
    using not_le[of 176 "length tokens"] by blast
  show ?thesis
  proof (intro conjI)
    show "build_rows date tokens = Inl ValueError \<longleftrightarrow>
      length tokens < 176 \<or> (\<exists>i<176. \<not> convertible i (tokens ! i))"
      using a c by blast
    show "(\<exists>rows. build_rows date tokens = Inr rows \<and> length rows = 11) \<longleftrightarrow>
      176 \<le> length tokens \<and> (\<forall>i<176. convertible i (tokens ! i))"
      by (rule b)
    show "build_rows date tokens = build_rows date (take 176 tokens)"
      by (rule cut)
  qed
qed

lemma wide_page_tokens: "tokenize wide_page = concat (replicate 11 row_tokens) @ [''Totale'']"
  by code_simp

lemma short_page_tokens: "tokenize short_page = concat (replicate 10 row_tokens) @ [''Totale'']"
  by code_simp

lemma all_convertible_code:
  assumes "n \<le> length tokens" "list_all (\<lambda>(i, t). convertible i t) (zip [0..<n] (take n tokens))"
  shows "\<forall>i<n. convertible i (tokens ! i)"
proof (intro allI impI)
  fix i assume i: "i < n"
  with assms(1) have "i < length (zip [0..<n] (take n tokens))" by simp
  then have "zip [0..<n] (take n tokens) ! i \<in> set (zip [0..<n] (take n tokens))"
    by (rule nth_mem)
  moreover have "zip [0..<n] (take n tokens) ! i = (i, tokens ! i)"
    using i assms(1) by simp
  ultimately show "convertible i (tokens ! i)"
    using assms(2) by (auto simp: list_all_iff)
qed

theorem build_rows_malformed_witness:
  "build_rows example_date (tokenize short_page) = Inl ValueError
   \<and> build_rows example_date ((tokenize wide_page)[17 := ''1,5'']) = Inl ValueError
   \<and> build_rows example_date (tokenize wide_page)
       = build_rows example_date (take 176 (tokenize wide_page))
   \<and> \<not> isl (build_rows example_date (tokenize wide_page))"
proof -
  let ?w = "concat (replicate 11 row_tokens) @ [''Totale'']"
  let ?s = "concat (replicate 10 row_tokens) @ [''Totale'']"
  have "length ?s < 176" by code_simp
  then have a: "build_rows example_date ?s = Inl ValueError"
    using build_rows_malformed[of example_date ?s] by blast
  have "17 < (176::nat)" "\<not> convertible 17 (?w[17 := ''1,5''] ! 17)" by code_simp+
  then have "\<exists>i<176. \<not> convertible i (?w[17 := ''1,5''] ! i)" by blast
  then have b: "build_rows example_date (?w[17 := ''1,5'']) = Inl ValueError"
    using build_rows_malformed[of example_date "?w[17 := ''1,5'']"] by blast
  have c: "build_rows example_date ?w = build_rows example_date (take 176 ?w)"
    using build_rows_malformed[of example_date ?w] by blast
  have l: "176 \<le> length ?w" by code_simp
  moreover have "list_all (\<lambda>(i, t). convertible i t) (zip [0..<176] (take 176 ?w))"
    by code_simp
  with l have "\<forall>i<176. convertible i (?w ! i)" by (rule all_convertible_code)
  ultimately have "\<exists>rows. build_rows example_date ?w = Inr rows \<and> length rows = 11"
    using build_rows_malformed[of example_date ?w] by blast
  then have d: "\<not> isl (build_rows example_date ?w)" by auto
  from a b c d show ?thesis by (simp only: wide_page_tokens short_page_tokens simp_thms)
qed

text \<open>
  C1 (as stated) has every token sequence whose length is not \<open>11 * 16\<close> rejected. A page
  with one more word after the eleventh row gives 177 tokens, and the table is built from
  it all the same.
\<close>

theorem longer_page_counterexample:
  "length (tokenize wide_page) = 177
   \<and> build_rows example_date (tokenize wide_page) = Inr (replicate 11 example_row)"
  unfolding wide_page_tokens by code_simp

section \<open>The tables that extraction produces\<close>

text \<open>
  Whatever the report, a table returned by the extraction has the seventeen columns and
  the row labels \<open>0, ..., 10\<close>, and its six checked columns hold integers or missing
  markers only. So the statements about \<^verbatim>\<open>sanity_check_with_totals\<close> above apply to every
  extracted table whose counts are in the exact range.
\<close>

lemma to_int_str_count: "to_int (PStr s) = Inr v \<Longrightarrow> count_cell v"
  by (auto simp: to_int_def count_cell_def split: if_splits option.splits)

lemma convert_each_Inr:
  "convert_each xs = Inr vals \<Longrightarrow>
   length vals = length xs \<and> (\<forall>k<length xs. snd (xs ! k) (fst (xs ! k)) = Inr (vals ! k))"
proof (induction xs arbitrary: vals rule: convert_each.induct)
  case 1
  then show ?case by simp
next
  case (2 v conv rest)
  from 2(2) obtain x xs where x: "conv v = Inr x" and xs: "convert_each rest = Inr xs"
    and vals: "vals = x # xs"
    by (auto split: sum.splits)
  from 2(1)[OF x xs] have ih: "length xs = length rest"
    "\<forall>k<length rest. snd (rest ! k) (fst (rest ! k)) = Inr (xs ! k)" by simp_all
  show ?case
  proof (intro conjI allI impI)
    show "length vals = length ((v, conv) # rest)" using ih vals by simp
    fix k assume "k < length ((v, conv) # rest)"
    then show "snd (((v, conv) # rest) ! k) (fst (((v, conv) # rest) ! k)) = Inr (vals ! k)"
      using ih x vals by (cases k) simp_all
  qed
qed

lemma convert_values_Inr:
  assumes "convert_values (map PStr ts) COLUMN_CONVERTERS = Inr vals"
  shows "length vals = 16 \<and> (\<forall>k<16. (COLUMN_CONVERTERS ! k) (PStr (ts ! k)) = Inr (vals ! k))"
proof -
  from assms have len: "length ts = 16"
    by (auto simp: convert_values_def length_COLUMN_CONVERTERS split: if_splits)
  with assms have "convert_each (zip (map PStr ts) COLUMN_CONVERTERS) = Inr vals"
    by (simp add: convert_values_def length_COLUMN_CONVERTERS)
  from convert_each_Inr[OF this] len show ?thesis
    by (simp add: length_COLUMN_CONVERTERS)
qed

lemma row_cells:
  assumes "convert_values (map PStr ts) COLUMN_CONVERTERS = Inr vals"
  shows "length (date # vals) = 17 \<and>
         (\<forall>j\<in>{2, 4, 7, 9, 12, 14}. count_cell ((date # vals) ! j))"
proof -
  from convert_values_Inr[OF assms]
  have len: "length vals = 16"
    and c: "\<And>k. k < 16 \<Longrightarrow> (COLUMN_CONVERTERS ! k) (PStr (ts ! k)) = Inr (vals ! k)"
    by simp_all
  have "count_cell (vals ! k)" if "k \<in> {1, 3, 6, 8, 11, 13}" for k
  proof -
    from that have "k < 16" "COLUMN_CONVERTERS ! k = to_int"
      by (auto simp: COLUMN_CONVERTERS_list)
    with c[of k] show ?thesis by (auto dest: to_int_str_count)
  qed
  then have "\<forall>j\<in>{2, 4, 7, 9, 12, 14}. count_cell ((date # vals) ! j)" by simp
  with len show ?thesis by simp
qed

lemma rows_loop_cells:
  "rows_loop date tokens is = Inr rows \<Longrightarrow>
   length rows = length is \<and>
   (\<forall>r\<in>set rows. length r = 17 \<and> (\<forall>j\<in>{2, 4, 7, 9, 12, 14}. count_cell (r ! j)))"
proof (induction "is" arbitrary: rows)
  case Nil
  then show ?case by simp
next
  case (Cons i "is")
  from Cons.prems obtain vals rest where
    v: "convert_values (map PStr (slice (i * num_columns) (i * num_columns + num_columns) tokens))
          COLUMN_CONVERTERS = Inr vals"
    and r: "rows_loop date tokens is = Inr rest" and rows: "rows = (date # vals) # rest"
    by (auto simp: Let_def split: sum.splits)
  from row_cells[OF v, of date] Cons.IH[OF r] rows show ?case by simp
qed

lemma index_of_checked:
  "index_of ''male_cases'' (''date'' # COLUMNS) = 2"
  "index_of ''male_deaths'' (''date'' # COLUMNS) = 4"
  "index_of ''female_cases'' (''date'' # COLUMNS) = 7"
  "index_of ''female_deaths'' (''date'' # COLUMNS) = 9"
  "index_of ''cases'' (''date'' # COLUMNS) = 12"
  "index_of ''deaths'' (''date'' # COLUMNS) = 14"
  "index_of ''age_group'' (''date'' # COLUMNS) = 1"
  by code_simp+

lemma map_zip_right:
  "length xs = length ys \<Longrightarrow> map (\<lambda>(l, r). f r) (zip xs ys) = map f ys"
  by (induction xs ys rule: list_induct2) auto

lemma column_cells_DataFrame:
  "column_cells c (DataFrame rows cols) = map (\<lambda>r. cell r (index_of c cols)) rows"
  unfolding column_cells_def DataFrame_def by (simp add: map_zip_right)

lemma index_of_checked_mem:
  "\<forall>c\<in>set checked_columns. index_of c (''date'' # COLUMNS) \<in> set [2, 4, 7, 9, 12, 14]"
  by code_simp

lemma checked_in_columns: "set checked_columns \<subseteq> set (''date'' # COLUMNS)"
  by code_simp

lemma extract_report_counts:
  assumes "extract_report pdf = Inr t"
  shows "columns t = ''date'' # COLUMNS \<and> map fst (body t) = [0..<11]
       \<and> (\<forall>c\<in>set checked_columns. c \<in> set (columns t) \<and> list_all count_cell (column_cells c t))"
proof -
  from assms obtain date tokens rows where
    b: "build_rows date tokens = Inr rows"
    and t: "t = normalize_table (DataFrame rows (''date'' # COLUMNS))"
    by (auto simp: extract_report_def split: sum.splits)
  from rows_loop_cells[OF b[unfolded build_rows_def]]
  have len: "length rows = 11"
    and cells: "\<forall>r\<in>set rows. length r = 17 \<and> (\<forall>j\<in>{2, 4, 7, 9, 12, 14}. count_cell (r ! j))"
    by (simp_all add: num_rows_def)
  let ?cols = "''date'' # COLUMNS"
  let ?rows' = "rows[9 := (rows ! 9)[1 := PStr ''>=90''], 10 := (rows ! 10)[1 := PStr ''unknown'']]"
  have ag: "''age_group'' \<in> set ?cols" by (simp add: COLUMNS_def)
  have n: "t = DataFrame ?rows' ?cols"
    unfolding t using normalize_table_DataFrame[OF len ag] by (simp only: index_of_checked(7))
  have cells': "\<forall>r\<in>set ?rows'. length r = 17 \<and> (\<forall>j\<in>{2, 4, 7, 9, 12, 14}. count_cell (r ! j))"
  proof
    fix r assume "r \<in> set ?rows'"
    then obtain i where i: "i < 11" "r = ?rows' ! i" using len by (auto simp: in_set_conv_nth)
    have ri: "rows ! i \<in> set rows" using i len by simp
    consider "i = 9" | "i = 10" | "i \<noteq> 9" "i \<noteq> 10" by blast
    then show "length r = 17 \<and> (\<forall>j\<in>{2, 4, 7, 9, 12, 14}. count_cell (r ! j))"
    proof cases
      case 1
      with i len ri cells show ?thesis by (auto simp: nth_list_update)
    next
      case 2
      with i len ri cells show ?thesis by (auto simp: nth_list_update)
    next
      case 3
      with i len ri cells show ?thesis by (auto simp: nth_list_update)
    qed
  qed
  have col: "list_all count_cell (column_cells c t)" if "c \<in> set checked_columns" for c
  proof -
    define k where "k = index_of c ?cols"
    from that index_of_checked_mem have j: "k \<in> {2, 4, 7, 9, 12, 14}"
      unfolding k_def by auto
    have "column_cells c t = map (\<lambda>r. cell r k) ?rows'"
      unfolding n k_def by (rule column_cells_DataFrame)
    moreover have "count_cell (cell r k)" if "r \<in> set ?rows'" for r
      using cells' that j by (auto simp: cell_def)
    ultimately show ?thesis by (simp add: list_all_iff)
  qed
  have "columns t = ?cols" "map fst (body t) = [0..<11]"
    unfolding n using len by (simp_all add: DataFrame_def)
  with col checked_in_columns show ?thesis by auto
qed

end
